theory Spec2Isabelle
  imports
    Main
    "HOL-Library.Char_ord"
    "HOL-Library.List_Lexorder"
    "HOL-Library.AList"
begin

section \<open>Values: the JSON documents the tracker handles\<close>

text \<open>
  The tracker (\<^verbatim>\<open>srcs/openfda_shortage_tracker.py\<close>) works on what \<^verbatim>\<open>json.loads\<close>
  returns: \<^verbatim>\<open>None\<close>, \<^verbatim>\<open>bool\<close>, \<^verbatim>\<open>int\<close>, \<^verbatim>\<open>str\<close>, \<^verbatim>\<open>list\<close> and \<^verbatim>\<open>dict\<close> with
  \<^verbatim>\<open>str\<close> keys. A Python \<^verbatim>\<open>dict\<close> is an association list in insertion order whose keys
  are distinct (\<open>wf_json\<close> below); a Python \<^verbatim>\<open>str\<close> is a \<open>string\<close>, each \<open>char\<close>
  standing for the code point of the same number (so code points below 256), ordered as
  Python orders strings: lexicographically by code point. Floating-point numbers are not
  part of the model.
\<close>

datatype json =
    JNull
  | JBool bool
  | JInt int
  | JStr string
  | JList "json list"
  | JObj "(string \<times> json) list"

type_synonym pydict = "(string \<times> json) list"

fun wf_json :: "json \<Rightarrow> bool" where
  "wf_json (JList xs) = list_all wf_json xs"
| "wf_json (JObj kvs) = (distinct (map fst kvs) \<and> list_all (\<lambda>(k, v). wf_json v) kvs)"
| "wf_json _ = True"

definition is_dict :: "json \<Rightarrow> bool" where
  "is_dict v = (case v of JObj _ \<Rightarrow> True | _ \<Rightarrow> False)"

definition is_list :: "json \<Rightarrow> bool" where
  "is_list v = (case v of JList _ \<Rightarrow> True | _ \<Rightarrow> False)"

text \<open>
  Python's \<^verbatim>\<open>==\<close> on these values. \<^verbatim>\<open>bool\<close> is a subclass of \<^verbatim>\<open>int\<close>, so
  \<^verbatim>\<open>True == 1\<close> and \<^verbatim>\<open>False == 0\<close>; lists are compared by length and position; dicts
  by size and, for every key of the left one, the value under the same key on the right.
\<close>

fun py_eq :: "json \<Rightarrow> json \<Rightarrow> bool" where
  "py_eq JNull b = (b = JNull)"
| "py_eq (JBool x) b =
     (case b of JBool y \<Rightarrow> x = y | JInt j \<Rightarrow> (if x then 1 else 0) = j | _ \<Rightarrow> False)"
| "py_eq (JInt i) b =
     (case b of JBool y \<Rightarrow> i = (if y then 1 else 0) | JInt j \<Rightarrow> i = j | _ \<Rightarrow> False)"
| "py_eq (JStr s) b = (b = JStr s)"
| "py_eq (JList xs) b = (case b of JList ys \<Rightarrow> list_all2 py_eq xs ys | _ \<Rightarrow> False)"
| "py_eq (JObj kvs) b =
     (case b of
        JObj kws \<Rightarrow>
          length kvs = length kws \<and>
          list_all (\<lambda>(k, v). case map_of kws k of None \<Rightarrow> False | Some w \<Rightarrow> py_eq v w) kvs
      | _ \<Rightarrow> False)"

definition py_ne :: "json \<Rightarrow> json \<Rightarrow> bool" where
  "py_ne a b = (\<not> py_eq a b)"

text \<open>
  The comparison the specification describes: deep, field by field, every scalar equal in
  type and value, lists by position, objects by field name whatever the order of the fields.
\<close>

fun deep_equal :: "json \<Rightarrow> json \<Rightarrow> bool" where
  "deep_equal (JList xs) b = (case b of JList ys \<Rightarrow> list_all2 deep_equal xs ys | _ \<Rightarrow> False)"
| "deep_equal (JObj kvs) b =
     (case b of
        JObj kws \<Rightarrow>
          length kvs = length kws \<and>
          list_all (\<lambda>(k, v). case map_of kws k of None \<Rightarrow> False | Some w \<Rightarrow> deep_equal v w) kvs
      | _ \<Rightarrow> False)"
| "deep_equal a b = (a = b)"

section \<open>Python's string conversions\<close>

definition digit_char :: "nat \<Rightarrow> char" where
  "digit_char d = char_of (48 + d)"

fun str_nat :: "nat \<Rightarrow> string" where
  "str_nat n = (if n < 10 then [digit_char n] else str_nat (n div 10) @ [digit_char (n mod 10)])"

declare str_nat.simps [simp del]

definition str_int :: "int \<Rightarrow> string" where
  "str_int i = (if i < 0 then CHR ''-'' # str_nat (nat (- i)) else str_nat (nat i))"

definition hex_digit :: "nat \<Rightarrow> char" where
  "hex_digit d = (if d < 10 then char_of (48 + d) else char_of (87 + d))"

definition hex2 :: "char \<Rightarrow> string" where
  "hex2 c = [hex_digit (of_char c div 16), hex_digit (of_char c mod 16)]"

fun join :: "string \<Rightarrow> string list \<Rightarrow> string" where
  "join sep [] = []"
| "join sep [x] = x"
| "join sep (x # y # ys) = x @ sep @ join sep (y # ys)"

text \<open>
  \<^verbatim>\<open>repr\<close> of a \<^verbatim>\<open>str\<close>: single quotes unless the text holds a single quote and no double
  quote; the quote and the backslash are escaped, tab, newline and carriage return are
  written \<^verbatim>\<open>\t \n \r\<close>, and every other non-printable code point as \<^verbatim>\<open>\xhh\<close>.
\<close>

definition printable :: "char \<Rightarrow> bool" where
  "printable c =
     (let n = (of_char c :: nat) in (32 \<le> n \<and> n < 127) \<or> (161 \<le> n \<and> n \<noteq> 173))"

definition repr_quote :: "string \<Rightarrow> char" where
  "repr_quote s = (if CHR 0x27 \<in> set s \<and> CHR 0x22 \<notin> set s then CHR 0x22 else CHR 0x27)"

definition repr_char :: "char \<Rightarrow> char \<Rightarrow> string" where
  "repr_char q c =
     (if c = q \<or> c = CHR 0x5C then [CHR 0x5C, c]
      else if c = CHR 0x09 then [CHR 0x5C, CHR ''t'']
      else if c = CHR 0x0A then [CHR 0x5C, CHR ''n'']
      else if c = CHR 0x0D then [CHR 0x5C, CHR ''r'']
      else if printable c then [c]
      else [CHR 0x5C, CHR ''x''] @ hex2 c)"

definition repr_str :: "string \<Rightarrow> string" where
  "repr_str s = (let q = repr_quote s in [q] @ concat (map (repr_char q) s) @ [q])"

fun py_repr :: "json \<Rightarrow> string" where
  "py_repr JNull = ''None''"
| "py_repr (JBool b) = (if b then ''True'' else ''False'')"
| "py_repr (JInt i) = str_int i"
| "py_repr (JStr s) = repr_str s"
| "py_repr (JList xs) = ''['' @ join '', '' (map py_repr xs) @ '']''"
| "py_repr (JObj kvs) =
     ''{'' @ join '', '' (map (\<lambda>(k, v). repr_str k @ '': '' @ py_repr v) kvs) @ ''}''"

text \<open>\<^verbatim>\<open>str(x)\<close>: the text itself for a \<^verbatim>\<open>str\<close>, \<^verbatim>\<open>repr(x)\<close> for everything else.\<close>

definition py_str :: "json \<Rightarrow> string" where
  "py_str v = (case v of JStr s \<Rightarrow> s | _ \<Rightarrow> py_repr v)"

section \<open>\<^verbatim>\<open>json.dumps\<close>\<close>

text \<open>
  The encoder of Python's \<^verbatim>\<open>json\<close> module with \<^verbatim>\<open>ensure_ascii\<close> left on: inside the
  double quotes everything outside the range from space to tilde, the double quote and the
  backslash are escaped, with a short escape where JSON has one and \<^verbatim>\<open>\u00hh\<close> otherwise.
\<close>

definition escape_char :: "char \<Rightarrow> string" where
  "escape_char c =
     (if c = CHR 0x5C then [CHR 0x5C, CHR 0x5C]
      else if c = CHR 0x22 then [CHR 0x5C, CHR 0x22]
      else if c = CHR 0x08 then [CHR 0x5C, CHR ''b'']
      else if c = CHR 0x0C then [CHR 0x5C, CHR ''f'']
      else if c = CHR 0x0A then [CHR 0x5C, CHR ''n'']
      else if c = CHR 0x0D then [CHR 0x5C, CHR ''r'']
      else if c = CHR 0x09 then [CHR 0x5C, CHR ''t'']
      else if 32 \<le> (of_char c :: nat) \<and> (of_char c :: nat) \<le> 126 then [c]
      else [CHR 0x5C, CHR ''u'', CHR ''0'', CHR ''0''] @ hex2 c)"

definition encode_str :: "string \<Rightarrow> string" where
  "encode_str s = [CHR 0x22] @ concat (map escape_char s) @ [CHR 0x22]"

text \<open>
  \<open>iterencode ind lvl v\<close> is the text of \<open>v\<close> at nesting level \<open>lvl\<close>, for
  \<^verbatim>\<open>sort_keys=True\<close>; \<open>ind\<close> is the \<^verbatim>\<open>indent\<close> argument. Without an indent the items are
  separated by a comma and a space; with one, by a comma, a newline and the indentation of
  the level, and the closing bracket stands on a line of its own. An empty container is
  \<^verbatim>\<open>[]\<close> or \<^verbatim>\<open>{}\<close> in both styles.
\<close>

definition newline_indent :: "nat option \<Rightarrow> nat \<Rightarrow> string" where
  "newline_indent ind lvl =
     (case ind of None \<Rightarrow> [] | Some n \<Rightarrow> CHR 0x0A # replicate (n * lvl) CHR '' '')"

definition item_separator :: "nat option \<Rightarrow> string" where
  "item_separator ind = (case ind of None \<Rightarrow> '', '' | Some n \<Rightarrow> '','')"

fun iterencode :: "nat option \<Rightarrow> nat \<Rightarrow> json \<Rightarrow> string" where
  "iterencode ind lvl JNull = ''null''"
| "iterencode ind lvl (JBool b) = (if b then ''true'' else ''false'')"
| "iterencode ind lvl (JInt i) = str_int i"
| "iterencode ind lvl (JStr s) = encode_str s"
| "iterencode ind lvl (JList xs) =
     (if xs = [] then ''[]''
      else ''['' @ newline_indent ind (Suc lvl)
           @ join (item_separator ind @ newline_indent ind (Suc lvl))
               (map (iterencode ind (Suc lvl)) xs)
           @ newline_indent ind lvl @ '']'')"
| "iterencode ind lvl (JObj kvs) =
     (if kvs = [] then ''{}''
      else ''{'' @ newline_indent ind (Suc lvl)
           @ join (item_separator ind @ newline_indent ind (Suc lvl))
               (map (\<lambda>(k, v). encode_str k @ '': '' @ iterencode ind (Suc lvl) v)
                  (sort_key fst kvs))
           @ newline_indent ind lvl @ ''}'')"

definition json_dumps :: "nat option \<Rightarrow> json \<Rightarrow> string" where
  "json_dumps ind v = iterencode ind 0 v"

section \<open>Record normalizer\<close>

definition dict_get :: "pydict \<Rightarrow> string \<Rightarrow> json" where
  \<comment> \<open>\<^verbatim>\<open>record.get(key)\<close>: \<^verbatim>\<open>None\<close> for a missing key\<close>
  "dict_get d k = (case map_of d k of None \<Rightarrow> JNull | Some v \<Rightarrow> v)"

definition is_blank :: "json \<Rightarrow> bool" where
  \<comment> \<open>\<^verbatim>\<open>value in (None, "")\<close>\<close>
  "is_blank v = (py_eq v JNull \<or> py_eq v (JStr []))"

fun pick_first :: "pydict \<Rightarrow> string list \<Rightarrow> json" where
  "pick_first record [] = JNull"
| "pick_first record (key # keys) =
     (let v = dict_get record key in if \<not> is_blank v then v else pick_first record keys)"

definition key_fields :: "string list" where
  "key_fields =
     [''id'', ''shortage_id'', ''shortage_number'', ''set_id'', ''application_number'',
      ''product_ndc'']"

definition record_key :: "pydict \<Rightarrow> string" where
  "record_key record =
     (let candidate = pick_first record key_fields
      in if candidate \<noteq> JNull then py_str candidate else json_dumps None (JObj record))"

definition normalize_record :: "pydict \<Rightarrow> json" where
  "normalize_record record =
     JObj
       [(''key'', JStr (record_key record)),
        (''drug_name'',
           pick_first record
             [''drug_name'', ''proprietary_name'', ''generic_name'', ''product_description'']),
        (''status'',
           pick_first record
             [''status'', ''shortage_status'', ''current_status'', ''availability_status'']),
        (''reason'', pick_first record [''reason'', ''reason_for_shortage'', ''shortage_reason'']),
        (''last_updated'',
           pick_first record [''last_updated'', ''revision_date'', ''updated_at'', ''created'']),
        (''raw'', JObj record)]"

section \<open>Snapshot builder\<close>

text \<open>
  \<^verbatim>\<open>snapshot[k] = v\<close> on a Python dict replaces the value of an existing key where it
  stands and appends a new key at the end: \<open>AList.update\<close>.
\<close>

fun build_loop :: "pydict \<Rightarrow> pydict list \<Rightarrow> pydict" where
  "build_loop snapshot [] = snapshot"
| "build_loop snapshot (record # records) =
     (let normalized = normalize_record record
      in build_loop (AList.update (record_key record) normalized snapshot) records)"

definition build_snapshot :: "pydict list \<Rightarrow> pydict" where
  "build_snapshot records = build_loop [] records"

section \<open>Differ\<close>

record snapshot_diff =
  added :: "json list"
  removed :: "json list"
  changed :: "json list"

definition dict_keys :: "pydict \<Rightarrow> string set" where
  "dict_keys d = set (map fst d)"

definition dict_item :: "pydict \<Rightarrow> string \<Rightarrow> json" where
  \<comment> \<open>\<^verbatim>\<open>d[key]\<close>, used only for keys taken from \<open>d\<close> itself\<close>
  "dict_item d k = the (map_of d k)"

definition changed_entry :: "string \<Rightarrow> json \<Rightarrow> json \<Rightarrow> json" where
  "changed_entry k old_value new_value =
     JObj [(''key'', JStr k), (''before'', old_value), (''after'', new_value)]"

fun changed_loop :: "pydict \<Rightarrow> pydict \<Rightarrow> string list \<Rightarrow> json list" where
  "changed_loop old_snapshot new_snapshot [] = []"
| "changed_loop old_snapshot new_snapshot (k # ks) =
     (let old_value = dict_item old_snapshot k; new_value = dict_item new_snapshot k
      in (if py_ne old_value new_value then [changed_entry k old_value new_value] else [])
         @ changed_loop old_snapshot new_snapshot ks)"

definition diff_snapshots :: "pydict \<Rightarrow> pydict \<Rightarrow> snapshot_diff" where
  "diff_snapshots old_snapshot new_snapshot =
     (let old_keys = dict_keys old_snapshot; new_keys = dict_keys new_snapshot
      in \<lparr>added = map (dict_item new_snapshot) (sorted_list_of_set (new_keys - old_keys)),
          removed = map (dict_item old_snapshot) (sorted_list_of_set (old_keys - new_keys)),
          changed =
            changed_loop old_snapshot new_snapshot (sorted_list_of_set (old_keys \<inter> new_keys))\<rparr>)"

text \<open>
  The four classes of keys the differ distinguishes: the two set differences of lines
  117 and 118, and the common keys of line 121 split by the test of line 124.
\<close>

definition added_keys :: "pydict \<Rightarrow> pydict \<Rightarrow> string set" where
  "added_keys old_snapshot new_snapshot = dict_keys new_snapshot - dict_keys old_snapshot"

definition removed_keys :: "pydict \<Rightarrow> pydict \<Rightarrow> string set" where
  "removed_keys old_snapshot new_snapshot = dict_keys old_snapshot - dict_keys new_snapshot"

definition changed_keys :: "pydict \<Rightarrow> pydict \<Rightarrow> string set" where
  "changed_keys old_snapshot new_snapshot =
     {k \<in> dict_keys old_snapshot \<inter> dict_keys new_snapshot.
        py_ne (dict_item old_snapshot k) (dict_item new_snapshot k)}"

definition unchanged_keys :: "pydict \<Rightarrow> pydict \<Rightarrow> string set" where
  "unchanged_keys old_snapshot new_snapshot =
     {k \<in> dict_keys old_snapshot \<inter> dict_keys new_snapshot.
        py_eq (dict_item old_snapshot k) (dict_item new_snapshot k)}"

text \<open>
  The first value among the candidate fields that is neither \<^verbatim>\<open>None\<close> (a missing field
  or a JSON null) nor the empty string, if there is one.
\<close>

definition first_candidate :: "pydict \<Rightarrow> string list \<Rightarrow> json option" where
  "first_candidate record keys =
     find (\<lambda>v. v \<noteq> JNull \<and> v \<noteq> JStr []) (map (dict_get record) keys)"

section \<open>\<^verbatim>\<open>json.loads\<close>\<close>

text \<open>
  The exceptions the tracker can raise. \<open>OutsideModel\<close> is not an exception: the decoder
  below answers with it where the text holds a number with a fraction or an exponent,
  \<^verbatim>\<open>NaN\<close> or \<^verbatim>\<open>Infinity\<close>, or an escape \<^verbatim>\<open>\uXXXX\<close> of a code point from 256 on, that is,
  where Python would build a value that \<open>json\<close> does not have.
\<close>

datatype error =
    RuntimeError string
  | JSONDecodeError
  | AttributeError
  | OutsideModel

text \<open>
  The decoder of Python's \<^verbatim>\<open>json\<close> module, on the rest of the text still to be read
  instead of an index into it. Whitespace is space, tab, newline and carriage return.
\<close>

definition is_ws :: "char \<Rightarrow> bool" where
  "is_ws c = (c = CHR '' '' \<or> c = CHR 0x09 \<or> c = CHR 0x0A \<or> c = CHR 0x0D)"

definition skip_ws :: "string \<Rightarrow> string" where
  "skip_ws s = dropWhile is_ws s"

definition is_digit :: "char \<Rightarrow> bool" where
  "is_digit c = (CHR ''0'' \<le> c \<and> c \<le> CHR ''9'')"

definition digit_val :: "char \<Rightarrow> nat" where
  "digit_val c = of_char c - 48"

definition nat_of_digits :: "string \<Rightarrow> nat" where
  "nat_of_digits ds = foldl (\<lambda>a c. 10 * a + digit_val c) 0 ds"

definition hex_val :: "char \<Rightarrow> nat option" where
  "hex_val c =
     (if CHR ''0'' \<le> c \<and> c \<le> CHR ''9'' then Some (of_char c - 48)
      else if CHR ''a'' \<le> c \<and> c \<le> CHR ''f'' then Some (of_char c - 87)
      else if CHR ''A'' \<le> c \<and> c \<le> CHR ''F'' then Some (of_char c - 55)
      else None)"

definition decode_uXXXX :: "char \<Rightarrow> char \<Rightarrow> char \<Rightarrow> char \<Rightarrow> nat option" where
  "decode_uXXXX a b c d =
     (case (hex_val a, hex_val b, hex_val c, hex_val d) of
        (Some x, Some y, Some z, Some w) \<Rightarrow> Some (((x * 16 + y) * 16 + z) * 16 + w)
      | _ \<Rightarrow> None)"

definition backslash :: "char \<Rightarrow> char option" where
  "backslash e =
     (if e = CHR 0x22 then Some (CHR 0x22)
      else if e = CHR 0x5C then Some (CHR 0x5C)
      else if e = CHR ''/'' then Some (CHR ''/'')
      else if e = CHR ''b'' then Some (CHR 0x08)
      else if e = CHR ''f'' then Some (CHR 0x0C)
      else if e = CHR ''n'' then Some (CHR 0x0A)
      else if e = CHR ''r'' then Some (CHR 0x0D)
      else if e = CHR ''t'' then Some (CHR 0x09)
      else None)"

text \<open>
  \<open>scanstring s\<close> reads a string whose opening quote has been consumed: up to the closing
  quote, decoding the escapes; a raw control character, an unknown escape and the end of
  the text are errors.
\<close>

definition append_char :: "char \<Rightarrow> error + string \<times> string \<Rightarrow> error + string \<times> string" where
  "append_char c r = (case r of Inl e \<Rightarrow> Inl e | Inr (str, rest) \<Rightarrow> Inr (c # str, rest))"

fun scanstring :: "string \<Rightarrow> error + string \<times> string" where
  "scanstring [] = Inl JSONDecodeError"
| "scanstring (c # cs) =
     (if c = CHR 0x22 then Inr ([], cs)
      else if c = CHR 0x5C then
        (case cs of
           [] \<Rightarrow> Inl JSONDecodeError
         | e # cs1 \<Rightarrow>
             if e = CHR ''u'' then
               (case cs1 of
                  h1 # h2 # h3 # h4 # cs2 \<Rightarrow>
                    (case decode_uXXXX h1 h2 h3 h4 of
                       None \<Rightarrow> Inl JSONDecodeError
                     | Some uni \<Rightarrow>
                         if uni < 256 then append_char (char_of uni) (scanstring cs2)
                         else Inl OutsideModel)
                | _ \<Rightarrow> Inl JSONDecodeError)
             else
               (case backslash e of
                  None \<Rightarrow> Inl JSONDecodeError
                | Some ch \<Rightarrow> append_char ch (scanstring cs1)))
      else if (of_char c :: nat) < 32 then Inl JSONDecodeError
      else append_char c (scanstring cs))"

text \<open>
  The number pattern \<^verbatim>\<open>(-?(?:0|[1-9][0-9]*))(\.[0-9]+)?([eE][-+]?[0-9]+)?\<close>: an integer
  when neither the fraction nor the exponent matches.
\<close>

datatype number_match = NoMatch | IntLit int string | FloatLit

definition match_digits :: "string \<Rightarrow> (string \<times> string) option" where
  \<comment> \<open>\<^verbatim>\<open>0|[1-9][0-9]*\<close>\<close>
  "match_digits s =
     (case s of
        [] \<Rightarrow> None
      | c # cs \<Rightarrow>
          if c = CHR ''0'' then Some ([c], cs)
          else if is_digit c then Some (c # takeWhile is_digit cs, dropWhile is_digit cs)
          else None)"

definition match_frac :: "string \<Rightarrow> bool" where
  \<comment> \<open>\<^verbatim>\<open>\.[0-9]+\<close>\<close>
  "match_frac s = (case s of c # d # _ \<Rightarrow> c = CHR ''.'' \<and> is_digit d | _ \<Rightarrow> False)"

definition match_exp :: "string \<Rightarrow> bool" where
  \<comment> \<open>\<^verbatim>\<open>[eE][-+]?[0-9]+\<close>\<close>
  "match_exp s =
     (case s of
        c # d # ds \<Rightarrow>
          (c = CHR ''e'' \<or> c = CHR ''E'')
          \<and> (is_digit d \<or> ((d = CHR ''-'' \<or> d = CHR ''+'') \<and> (case ds of x # _ \<Rightarrow> is_digit x | [] \<Rightarrow> False)))
      | _ \<Rightarrow> False)"

definition match_number :: "string \<Rightarrow> number_match" where
  "match_number s =
     (let (neg, s1) = (case s of c # cs \<Rightarrow> if c = CHR ''-'' then (True, cs) else (False, s)
                                | [] \<Rightarrow> (False, s))
      in case match_digits s1 of
           None \<Rightarrow> NoMatch
         | Some (ds, rest) \<Rightarrow>
             if match_frac rest \<or> match_exp rest then FloatLit
             else IntLit (if neg then - int (nat_of_digits ds) else int (nat_of_digits ds)) rest)"

text \<open>\<^verbatim>\<open>dict(pairs)\<close>: a later pair with the same key replaces the value of the earlier one.\<close>

definition dict_of_pairs :: "(string \<times> json) list \<Rightarrow> pydict" where
  "dict_of_pairs pairs = foldl (\<lambda>d (k, v). AList.update k v d) [] pairs"

definition starts_with :: "string \<Rightarrow> string \<Rightarrow> bool" where
  "starts_with p s = (take (length p) s = p)"

text \<open>
  \<open>scan_once\<close> reads one value, \<open>parse_array_items\<close> the items of a non-empty array up
  to its closing bracket and \<open>parse_object_items\<close> the members of a non-empty object from
  behind the opening quote of a key up to the closing brace. The first argument bounds the
  number of nested calls; \<open>None\<close> means that the bound was too small, and
  \<open>json_loads\<close> passes a bound that never is (\<open>scan_once_total\<close>).
\<close>

fun scan_once :: "nat \<Rightarrow> string \<Rightarrow> (error + json \<times> string) option"
  and parse_array_items :: "nat \<Rightarrow> string \<Rightarrow> (error + json list \<times> string) option"
  and parse_object_items :: "nat \<Rightarrow> string \<Rightarrow> (error + (string \<times> json) list \<times> string) option"
where
  "scan_once 0 s = None"
| "scan_once (Suc n) s =
     (case s of
        [] \<Rightarrow> Some (Inl JSONDecodeError)
      | c # cs \<Rightarrow>
          if c = CHR 0x22 then
            Some (case scanstring cs of
                    Inl e \<Rightarrow> Inl e
                  | Inr (str, rest) \<Rightarrow> Inr (JStr str, rest))
          else if c = CHR ''{'' then
            (case skip_ws cs of
               [] \<Rightarrow> Some (Inl JSONDecodeError)
             | d # rest \<Rightarrow>
                 if d = CHR ''}'' then Some (Inr (JObj [], rest))
                 else if d = CHR 0x22 then
                   (case parse_object_items n rest of
                      None \<Rightarrow> None
                    | Some (Inl e) \<Rightarrow> Some (Inl e)
                    | Some (Inr (pairs, rest')) \<Rightarrow> Some (Inr (JObj (dict_of_pairs pairs), rest')))
                 else Some (Inl JSONDecodeError))
          else if c = CHR ''['' then
            (case skip_ws cs of
               [] \<Rightarrow> Some (Inl JSONDecodeError)
             | d # rest \<Rightarrow>
                 if d = CHR '']'' then Some (Inr (JList [], rest))
                 else
                   (case parse_array_items n (d # rest) of
                      None \<Rightarrow> None
                    | Some (Inl e) \<Rightarrow> Some (Inl e)
                    | Some (Inr (values, rest')) \<Rightarrow> Some (Inr (JList values, rest'))))
          else if starts_with ''null'' s then Some (Inr (JNull, drop 4 s))
          else if starts_with ''true'' s then Some (Inr (JBool True, drop 4 s))
          else if starts_with ''false'' s then Some (Inr (JBool False, drop 5 s))
          else
            (case match_number s of
               IntLit i rest \<Rightarrow> Some (Inr (JInt i, rest))
             | FloatLit \<Rightarrow> Some (Inl OutsideModel)
             | NoMatch \<Rightarrow>
                 if starts_with ''NaN'' s \<or> starts_with ''Infinity'' s \<or> starts_with ''-Infinity'' s
                 then Some (Inl OutsideModel)
                 else Some (Inl JSONDecodeError)))"
| "parse_array_items 0 s = None"
| "parse_array_items (Suc n) s =
     (case scan_once (Suc n) s of
        None \<Rightarrow> None
      | Some (Inl e) \<Rightarrow> Some (Inl e)
      | Some (Inr (v, r)) \<Rightarrow>
          (case skip_ws r of
             [] \<Rightarrow> Some (Inl JSONDecodeError)
           | d # rest \<Rightarrow>
               if d = CHR '']'' then Some (Inr ([v], rest))
               else if d = CHR '','' then
                 (case parse_array_items n (skip_ws rest) of
                    None \<Rightarrow> None
                  | Some (Inl e) \<Rightarrow> Some (Inl e)
                  | Some (Inr (values, rest')) \<Rightarrow> Some (Inr (v # values, rest')))
               else Some (Inl JSONDecodeError)))"
| "parse_object_items 0 s = None"
| "parse_object_items (Suc n) s =
     (case scanstring s of
        Inl e \<Rightarrow> Some (Inl e)
      | Inr (key, r) \<Rightarrow>
          (case skip_ws r of
             [] \<Rightarrow> Some (Inl JSONDecodeError)
           | c # r1 \<Rightarrow>
               if c \<noteq> CHR '':'' then Some (Inl JSONDecodeError)
               else
                 (case scan_once (Suc n) (skip_ws r1) of
                    None \<Rightarrow> None
                  | Some (Inl e) \<Rightarrow> Some (Inl e)
                  | Some (Inr (v, r2)) \<Rightarrow>
                      (case skip_ws r2 of
                         [] \<Rightarrow> Some (Inl JSONDecodeError)
                       | d # r3 \<Rightarrow>
                           if d = CHR ''}'' then Some (Inr ([(key, v)], r3))
                           else if d = CHR '','' then
                             (case skip_ws r3 of
                                [] \<Rightarrow> Some (Inl JSONDecodeError)
                              | q # r4 \<Rightarrow>
                                  if q \<noteq> CHR 0x22 then Some (Inl JSONDecodeError)
                                  else
                                    (case parse_object_items n r4 of
                                       None \<Rightarrow> None
                                     | Some (Inl e) \<Rightarrow> Some (Inl e)
                                     | Some (Inr (pairs, rest')) \<Rightarrow>
                                         Some (Inr ((key, v) # pairs, rest'))))
                           else Some (Inl JSONDecodeError)))))"

definition json_loads :: "string \<Rightarrow> error + json" where
  "json_loads s =
     (case scan_once (Suc (length s)) (skip_ws s) of
        None \<Rightarrow> Inl JSONDecodeError
      | Some (Inl e) \<Rightarrow> Inl e
      | Some (Inr (obj, rest)) \<Rightarrow> if skip_ws rest = [] then Inr obj else Inl JSONDecodeError)"

section \<open>Snapshot store\<close>

text \<open>
  The store is the file system, a map from paths to the text of the file there; directories
  are not modelled, so \<^verbatim>\<open>path.parent.mkdir(parents=True, exist_ok=True)\<close> has no effect
  on it.
\<close>

type_synonym filesystem = "string \<rightharpoonup> string"

definition load_snapshot :: "filesystem \<Rightarrow> string \<Rightarrow> error + pydict" where
  "load_snapshot fs path =
     (case fs path of
        None \<Rightarrow> Inr []
      | Some text \<Rightarrow>
          (case json_loads text of
             Inl e \<Rightarrow> Inl e
           | Inr content \<Rightarrow>
               (case content of
                  JObj d \<Rightarrow> Inr d
                | _ \<Rightarrow> Inl (RuntimeError (''Snapshot file is invalid JSON object: '' @ path)))))"

definition save_snapshot :: "filesystem \<Rightarrow> string \<Rightarrow> pydict \<Rightarrow> filesystem" where
  "save_snapshot fs path snapshot = fs(path \<mapsto> json_dumps (Some 2) (JObj snapshot))"

section \<open>Fetch client\<close>

text \<open>
  What \<^verbatim>\<open>urlopen\<close> answers to the request: an HTTP error with its code and reason, a
  network error with its reason, or the decoded body of the response. The model of
  \<open>fetch_shortage_records\<close> starts from this answer.
\<close>

datatype http_response = HTTPError nat string | URLError string | Body string

definition not_a_list_message :: string where
  "not_a_list_message =
     ''Unexpected API response: '' @ [CHR 0x27] @ ''results'' @ [CHR 0x27] @ '' is not a list''"

definition fetch_shortage_records :: "http_response \<Rightarrow> error + pydict list" where
  "fetch_shortage_records response =
     (case response of
        HTTPError code reason \<Rightarrow>
          Inl (RuntimeError (''openFDA HTTP error '' @ str_nat code @ '': '' @ reason))
      | URLError reason \<Rightarrow> Inl (RuntimeError (''openFDA network error: '' @ reason))
      | Body text \<Rightarrow>
          (case json_loads text of
             Inl e \<Rightarrow> Inl e
           | Inr payload \<Rightarrow>
               (case payload of
                  JObj d \<Rightarrow>
                    (let results = (case map_of d ''results'' of None \<Rightarrow> JList [] | Some v \<Rightarrow> v)
                     in case results of
                          JList items \<Rightarrow>
                            Inr (List.map_filter
                                   (\<lambda>item. case item of JObj r \<Rightarrow> Some r | _ \<Rightarrow> None) items)
                        | _ \<Rightarrow> Inl (RuntimeError not_a_list_message))
                | _ \<Rightarrow> Inl AttributeError)))"

section \<open>The tracking pipeline\<close>

definition track_shortages ::
  "http_response \<Rightarrow> filesystem \<Rightarrow> string \<Rightarrow> bool \<Rightarrow> (error + nat \<times> snapshot_diff) \<times> filesystem"
where
  "track_shortages response fs snapshot_path save =
     (case fetch_shortage_records response of
        Inl e \<Rightarrow> (Inl e, fs)
      | Inr records \<Rightarrow>
          (let new_snapshot = build_snapshot records
           in case load_snapshot fs snapshot_path of
                Inl e \<Rightarrow> (Inl e, fs)
              | Inr old_snapshot \<Rightarrow>
                  (let diff = diff_snapshots old_snapshot new_snapshot;
                       fs' = (if save then save_snapshot fs snapshot_path new_snapshot else fs)
                   in (Inr (length records, diff), fs'))))"

text \<open>
  The value \<^verbatim>\<open>json.loads\<close> reads back from the output of \<^verbatim>\<open>json.dumps\<close> with sorted keys:
  the same value with the fields of every object in ascending order of their names.
\<close>

fun sorted_json :: "json \<Rightarrow> json" where
  "sorted_json (JList xs) = JList (map sorted_json xs)"
| "sorted_json (JObj kvs) = JObj (map (\<lambda>(k, v). (k, sorted_json v)) (sort_key fst kvs))"
| "sorted_json v = v"

text \<open>
  Two notions for the round trip through the encoder and the decoder: a rest of the text
  before which a number ends, and a value that the decoder reads back, at any nesting
  level and before any such rest, from what the encoder wrote for it.
\<close>

definition number_end :: "string \<Rightarrow> bool" where
  "number_end rest =
     (case rest of
        [] \<Rightarrow> True
      | c # _ \<Rightarrow> \<not> is_digit c \<and> c \<noteq> CHR ''.'' \<and> c \<noteq> CHR ''e'' \<and> c \<noteq> CHR ''E'')"

definition reads_back :: "nat option \<Rightarrow> json \<Rightarrow> bool" where
  "reads_back ind v =
     (\<forall>n lvl rest.
        length (iterencode ind lvl v @ rest) < n \<longrightarrow> number_end rest \<longrightarrow>
        scan_once n (iterencode ind lvl v @ rest) = Some (Inr (sorted_json v, rest)))"

text \<open>
  The outcome of a decoder function on the text \<open>s\<close> is in order when the bound was
  large enough and, if a value was read, the rest is shorter than \<open>s\<close>.
\<close>

definition progress :: "(error + 'a \<times> string) option \<Rightarrow> string \<Rightarrow> bool" where
  "progress r s =
     (case r of
        None \<Rightarrow> False
      | Some (Inl e) \<Rightarrow> True
      | Some (Inr (v, rest)) \<Rightarrow> length rest < length s)"

section \<open>Properties of the differ and the builder\<close>

lemma finite_dict_keys [simp]: "finite (dict_keys d)"
  by (simp add: dict_keys_def)

lemma py_eq_refl: "wf_json v \<Longrightarrow> py_eq v v"
proof (induction v)
  case (JList xs)
  then have "\<forall>x\<in>set xs. py_eq x x" by (simp add: list_all_iff)
  then show ?case by (simp add: list_all2_same)
next
  case (JObj kvs)
  have dist: "distinct (map fst kvs)" using JObj.prems by simp
  have "\<And>k v. (k, v) \<in> set kvs \<Longrightarrow> map_of kvs k = Some v \<and> py_eq v v"
  proof -
    fix k v assume kv: "(k, v) \<in> set kvs"
    then have "wf_json v" using JObj.prems by (auto simp: list_all_iff)
    moreover have "v \<in> Basic_BNFs.snds (k, v)" by simp
    ultimately have "py_eq v v" using JObj.IH kv by blast
    then show "map_of kvs k = Some v \<and> py_eq v v"
      using kv dist by simp
  qed
  then show ?case by (auto simp: list_all_iff)
qed simp_all

lemma filter_sorted_list_of_set:
  "finite A \<Longrightarrow> filter P (sorted_list_of_set A) = sorted_list_of_set {x \<in> A. P x}"
  by (rule sorted_distinct_set_unique) (auto intro: sorted_filter[where f="\<lambda>x. x", simplified])

lemma changed_loop_filter:
  "changed_loop old new ks =
     map (\<lambda>k. changed_entry k (dict_item old k) (dict_item new k))
       (filter (\<lambda>k. py_ne (dict_item old k) (dict_item new k)) ks)"
  by (induction ks) (simp_all add: Let_def)

lemma changed_diff:
  "changed (diff_snapshots old new) =
     map (\<lambda>k. changed_entry k (dict_item old k) (dict_item new k))
       (sorted_list_of_set (changed_keys old new))"
  by (simp add: diff_snapshots_def Let_def changed_loop_filter filter_sorted_list_of_set
      changed_keys_def)

lemma build_loop_map_of:
  "map_of (build_loop s rs) k =
     (case filter (\<lambda>r. record_key r = k) rs of
        [] \<Rightarrow> map_of s k
      | r # rs' \<Rightarrow> Some (normalize_record (last (r # rs'))))"
proof (induction rs arbitrary: s)
  case Nil
  then show ?case by simp
next
  case (Cons r rs)
  show ?case
    by (simp add: Cons.IH update_conv' Let_def split: list.splits)
qed

lemma build_loop_distinct:
  "distinct (map fst s) \<Longrightarrow> distinct (map fst (build_loop s rs))"
  by (induction rs arbitrary: s) (simp_all add: Let_def distinct_update)

lemma build_loop_keys:
  "dict_keys (build_loop s rs) = dict_keys s \<union> record_key ` set rs"
  by (induction rs arbitrary: s) (auto simp: Let_def dict_keys_def dom_update)

text \<open>
  Claim C1, as amended. The three sequences of \<open>diff_snapshots old new\<close> are read off
  three strictly ascending key lists: \<open>added\<close> holds the new snapshot's values at the keys
  only the new snapshot has, \<open>removed\<close> the old snapshot's values at the keys only the old
  one has, and \<open>changed\<close> one entry \<open>{key, before, after}\<close> for exactly those common
  keys whose two values are unequal under Python's \<^verbatim>\<open>==\<close> (\<open>py_eq\<close>).
\<close>

theorem diff_snapshots_sequences:
  "\<exists>ka kr kc.
     sorted_wrt (<) ka \<and> set ka = dict_keys new - dict_keys old
     \<and> added (diff_snapshots old new) = map (dict_item new) ka
     \<and> sorted_wrt (<) kr \<and> set kr = dict_keys old - dict_keys new
     \<and> removed (diff_snapshots old new) = map (dict_item old) kr
     \<and> sorted_wrt (<) kc
     \<and> set kc = {k \<in> dict_keys old \<inter> dict_keys new.
                    \<not> py_eq (dict_item old k) (dict_item new k)}
     \<and> changed (diff_snapshots old new) =
           map (\<lambda>k. changed_entry k (dict_item old k) (dict_item new k)) kc"
proof -
  let ?ka = "sorted_list_of_set (dict_keys new - dict_keys old)"
  let ?kr = "sorted_list_of_set (dict_keys old - dict_keys new)"
  let ?kc = "sorted_list_of_set (changed_keys old new)"
  have fin: "finite (changed_keys old new)"
    by (simp add: changed_keys_def)
  have a: "sorted_wrt (<) ?ka \<and> set ?ka = dict_keys new - dict_keys old"
    by simp
  have r: "sorted_wrt (<) ?kr \<and> set ?kr = dict_keys old - dict_keys new"
    by simp
  have c: "sorted_wrt (<) ?kc \<and> set ?kc = changed_keys old new"
    using fin by simp
  have "added (diff_snapshots old new) = map (dict_item new) ?ka"
    and "removed (diff_snapshots old new) = map (dict_item old) ?kr"
    by (simp_all add: diff_snapshots_def Let_def)
  with a r c changed_diff [of old new] show ?thesis
    unfolding changed_keys_def py_ne_def by blast
qed

theorem diff_snapshots_sequences_witness:
  "\<exists>ka kr kc.
     sorted_wrt (<) ka \<and> set ka = {''3''}
     \<and> added (diff_snapshots [(''1'', JInt 1), (''2'', JInt 2)] [(''1'', JInt 5), (''3'', JInt 3)])
         = map (dict_item [(''1'', JInt 5), (''3'', JInt 3)]) ka
     \<and> sorted_wrt (<) kr \<and> set kr = {''2''}
     \<and> removed (diff_snapshots [(''1'', JInt 1), (''2'', JInt 2)] [(''1'', JInt 5), (''3'', JInt 3)])
         = map (dict_item [(''1'', JInt 1), (''2'', JInt 2)]) kr
     \<and> sorted_wrt (<) kc \<and> set kc = {''1''}
     \<and> changed (diff_snapshots [(''1'', JInt 1), (''2'', JInt 2)] [(''1'', JInt 5), (''3'', JInt 3)])
         = map (\<lambda>k. changed_entry k (dict_item [(''1'', JInt 1), (''2'', JInt 2)] k)
                       (dict_item [(''1'', JInt 5), (''3'', JInt 3)] k)) kc"
proof -
  have 1: "dict_keys [(''1'', JInt 5), (''3'', JInt 3)] - dict_keys [(''1'', JInt 1), (''2'', JInt 2)]
           = {''3''}"
    by (auto simp: dict_keys_def)
  have 2: "dict_keys [(''1'', JInt 1), (''2'', JInt 2)] - dict_keys [(''1'', JInt 5), (''3'', JInt 3)]
           = {''2''}"
    by (auto simp: dict_keys_def)
  have 3: "{k \<in> dict_keys [(''1'', JInt 1), (''2'', JInt 2)]
                  \<inter> dict_keys [(''1'', JInt 5), (''3'', JInt 3)].
              \<not> py_eq (dict_item [(''1'', JInt 1), (''2'', JInt 2)] k)
                   (dict_item [(''1'', JInt 5), (''3'', JInt 3)] k)} = {''1''}"
    by (auto simp: dict_keys_def dict_item_def)
  show ?thesis
    using diff_snapshots_sequences
      [of "[(''1'', JInt 5), (''3'', JInt 3)]" "[(''1'', JInt 1), (''2'', JInt 2)]"]
    unfolding 1 2 3 .
qed

text \<open>
  Claim C1 as stated fails. Two fetches of the record \<^verbatim>\<open>{"id": "1", "flag": true}\<close> and
  \<^verbatim>\<open>{"id": "1", "flag": 1}\<close> give snapshots with the common key \<^verbatim>\<open>"1"\<close> whose records
  differ (a boolean against a number in the raw payload), and yet no changed entry is
  emitted, because \<^verbatim>\<open>True == 1\<close> in Python.
\<close>

theorem diff_snapshots_bool_int_counterexample:
  "''1'' \<in> dict_keys (build_snapshot [[(''id'', JStr ''1''), (''flag'', JBool True)]])
           \<inter> dict_keys (build_snapshot [[(''id'', JStr ''1''), (''flag'', JInt 1)]])
   \<and> dict_item (build_snapshot [[(''id'', JStr ''1''), (''flag'', JBool True)]]) ''1''
       \<noteq> dict_item (build_snapshot [[(''id'', JStr ''1''), (''flag'', JInt 1)]]) ''1''
   \<and> \<not> deep_equal
         (dict_item (build_snapshot [[(''id'', JStr ''1''), (''flag'', JBool True)]]) ''1'')
         (dict_item (build_snapshot [[(''id'', JStr ''1''), (''flag'', JInt 1)]]) ''1'')
   \<and> changed
        (diff_snapshots
           (build_snapshot [[(''id'', JStr ''1''), (''flag'', JBool True)]])
           (build_snapshot [[(''id'', JStr ''1''), (''flag'', JInt 1)]])) = []"
  by code_simp

text \<open>
  Claim C4. \<open>build_snapshot\<close> is a total function (no input makes it raise); the
  snapshot it returns has one entry for each key some input record normalizes to, its keys
  are distinct, and the entry under a key is the normalized form of the last input record
  with that key.
\<close>

theorem build_snapshot_last_wins:
  "distinct (map fst (build_snapshot records))
   \<and> dict_keys (build_snapshot records) = record_key ` set records
   \<and> map_of (build_snapshot records) k =
       (case filter (\<lambda>r. record_key r = k) records of
          [] \<Rightarrow> None
        | r # rs \<Rightarrow> Some (normalize_record (last (r # rs))))"
proof -
  have "distinct (map fst (build_loop [] records))"
    by (rule build_loop_distinct) simp
  moreover have "dict_keys (build_loop [] records) = record_key ` set records"
    using build_loop_keys [of "[]" records] by (simp add: dict_keys_def)
  moreover have "map_of (build_loop [] records) k =
       (case filter (\<lambda>r. record_key r = k) records of
          [] \<Rightarrow> None
        | r # rs \<Rightarrow> Some (normalize_record (last (r # rs))))"
    by (simp add: build_loop_map_of split: list.splits)
  ultimately show ?thesis
    by (simp add: build_snapshot_def)
qed

theorem build_snapshot_last_wins_witness:
  "distinct (map fst (build_snapshot
      [[(''id'', JStr ''1''), (''status'', JStr ''Current'')],
       [(''id'', JStr ''2'')],
       [(''id'', JStr ''1''), (''status'', JStr ''Resolved'')]]))
   \<and> map_of (build_snapshot
        [[(''id'', JStr ''1''), (''status'', JStr ''Current'')],
         [(''id'', JStr ''2'')],
         [(''id'', JStr ''1''), (''status'', JStr ''Resolved'')]]) ''1''
      = Some (normalize_record [(''id'', JStr ''1''), (''status'', JStr ''Resolved'')])"
proof -
  let ?rs = "[[(''id'', JStr ''1''), (''status'', JStr ''Current'')],
              [(''id'', JStr ''2'')],
              [(''id'', JStr ''1''), (''status'', JStr ''Resolved'')]]"
  have f: "filter (\<lambda>r. record_key r = ''1'') ?rs
             = [[(''id'', JStr ''1''), (''status'', JStr ''Current'')],
                [(''id'', JStr ''1''), (''status'', JStr ''Resolved'')]]"
    by code_simp
  show ?thesis
    using build_snapshot_last_wins [of ?rs "''1''"] unfolding f by simp
qed

text \<open>
  Claim C5. The keys of the two snapshots fall into four classes that are pairwise disjoint
  and together make up \<open>keys(old) \<union> keys(new)\<close>; the sequences of the diff are the
  values at the added, the removed and the changed keys, and the unchanged keys are
  reported nowhere.
\<close>

theorem diff_snapshots_partition:
  "added_keys old new \<union> removed_keys old new \<union> changed_keys old new \<union> unchanged_keys old new
     = dict_keys old \<union> dict_keys new
   \<and> added_keys old new \<inter> removed_keys old new = {}
   \<and> added_keys old new \<inter> changed_keys old new = {}
   \<and> added_keys old new \<inter> unchanged_keys old new = {}
   \<and> removed_keys old new \<inter> changed_keys old new = {}
   \<and> removed_keys old new \<inter> unchanged_keys old new = {}
   \<and> changed_keys old new \<inter> unchanged_keys old new = {}
   \<and> added (diff_snapshots old new) =
        map (dict_item new) (sorted_list_of_set (added_keys old new))
   \<and> removed (diff_snapshots old new) =
        map (dict_item old) (sorted_list_of_set (removed_keys old new))
   \<and> changed (diff_snapshots old new) =
        map (\<lambda>k. changed_entry k (dict_item old k) (dict_item new k))
          (sorted_list_of_set (changed_keys old new))"
proof -
  have "added_keys old new \<union> removed_keys old new \<union> changed_keys old new
          \<union> unchanged_keys old new = dict_keys old \<union> dict_keys new"
    by (auto simp: added_keys_def removed_keys_def changed_keys_def unchanged_keys_def py_ne_def)
  moreover have "added_keys old new \<inter> removed_keys old new = {}"
    and "added_keys old new \<inter> changed_keys old new = {}"
    and "added_keys old new \<inter> unchanged_keys old new = {}"
    and "removed_keys old new \<inter> changed_keys old new = {}"
    and "removed_keys old new \<inter> unchanged_keys old new = {}"
    and "changed_keys old new \<inter> unchanged_keys old new = {}"
    by (auto simp: added_keys_def removed_keys_def changed_keys_def unchanged_keys_def py_ne_def)
  moreover have "added (diff_snapshots old new) =
        map (dict_item new) (sorted_list_of_set (added_keys old new))"
    and "removed (diff_snapshots old new) =
        map (dict_item old) (sorted_list_of_set (removed_keys old new))"
    by (simp_all add: diff_snapshots_def Let_def added_keys_def removed_keys_def)
  ultimately show ?thesis
    using changed_diff [of old new] by simp
qed

theorem diff_snapshots_partition_witness:
  "added_keys [(''1'', JInt 1), (''2'', JInt 2), (''4'', JBool True)]
              [(''1'', JInt 5), (''3'', JInt 3), (''4'', JInt 1)] = {''3''}
   \<and> removed_keys [(''1'', JInt 1), (''2'', JInt 2), (''4'', JBool True)]
                   [(''1'', JInt 5), (''3'', JInt 3), (''4'', JInt 1)] = {''2''}
   \<and> changed_keys [(''1'', JInt 1), (''2'', JInt 2), (''4'', JBool True)]
                   [(''1'', JInt 5), (''3'', JInt 3), (''4'', JInt 1)] = {''1''}
   \<and> unchanged_keys [(''1'', JInt 1), (''2'', JInt 2), (''4'', JBool True)]
                     [(''1'', JInt 5), (''3'', JInt 3), (''4'', JInt 1)] = {''4''}
   \<and> changed (diff_snapshots [(''1'', JInt 1), (''2'', JInt 2), (''4'', JBool True)]
                              [(''1'', JInt 5), (''3'', JInt 3), (''4'', JInt 1)])
       = [changed_entry ''1'' (JInt 1) (JInt 5)]"
proof -
  let ?old = "[(''1'', JInt 1), (''2'', JInt 2), (''4'', JBool True)]"
  let ?new = "[(''1'', JInt 5), (''3'', JInt 3), (''4'', JInt 1)]"
  have a: "added_keys ?old ?new = {''3''}"
    by (auto simp: added_keys_def dict_keys_def)
  have r: "removed_keys ?old ?new = {''2''}"
    by (auto simp: removed_keys_def dict_keys_def)
  have c: "changed_keys ?old ?new = {''1''}"
    by (auto simp: changed_keys_def dict_keys_def dict_item_def py_ne_def)
  have u: "unchanged_keys ?old ?new = {''4''}"
    by (auto simp: unchanged_keys_def dict_keys_def dict_item_def)
  show ?thesis
    using diff_snapshots_partition [of ?old ?new] unfolding a r c u
    by (simp add: dict_item_def)
qed

text \<open>
  Claim C6. Comparing a snapshot with itself reports nothing: all three sequences are
  empty. The snapshot is a Python dict of JSON values, so its keys are distinct and so are
  the keys of every dict inside it.
\<close>

theorem diff_snapshots_same:
  assumes "wf_json (JObj S)"
  shows "diff_snapshots S S = \<lparr>added = [], removed = [], changed = []\<rparr>"
proof -
  have dist: "distinct (map fst S)" and wf: "list_all (\<lambda>(k, v). wf_json v) S"
    using assms by simp_all
  have "\<And>k. k \<in> dict_keys S \<Longrightarrow> \<not> py_ne (dict_item S k) (dict_item S k)"
  proof -
    fix k assume "k \<in> dict_keys S"
    then obtain v where kv: "(k, v) \<in> set S" by (auto simp: dict_keys_def)
    then have "map_of S k = Some v" using dist by simp
    moreover have "wf_json v" using kv wf by (auto simp: list_all_iff)
    ultimately show "\<not> py_ne (dict_item S k) (dict_item S k)"
      by (simp add: py_ne_def dict_item_def py_eq_refl)
  qed
  then have "filter (\<lambda>k. py_ne (dict_item S k) (dict_item S k))
               (sorted_list_of_set (dict_keys S)) = []"
    by (simp add: filter_empty_conv)
  then show ?thesis
    by (simp add: diff_snapshots_def changed_loop_filter)
qed

theorem diff_snapshots_same_witness:
  "wf_json (JObj (build_snapshot [[(''id'', JStr ''7''), (''status'', JStr ''Current'')]]))
   \<and> diff_snapshots
        (build_snapshot [[(''id'', JStr ''7''), (''status'', JStr ''Current'')]])
        (build_snapshot [[(''id'', JStr ''7''), (''status'', JStr ''Current'')]])
      = \<lparr>added = [], removed = [], changed = []\<rparr>"
proof -
  have wf: "wf_json (JObj (build_snapshot [[(''id'', JStr ''7''), (''status'', JStr ''Current'')]]))"
    by code_simp
  show ?thesis
    using wf diff_snapshots_same [OF wf] by simp
qed

section \<open>Properties of the normalizer\<close>

lemma is_blank_iff: "is_blank v \<longleftrightarrow> v = JNull \<or> v = JStr []"
  by (cases v) (auto simp: is_blank_def)

lemma pick_first_find:
  "pick_first record keys = (case first_candidate record keys of None \<Rightarrow> JNull | Some v \<Rightarrow> v)"
  by (induction keys) (auto simp: first_candidate_def Let_def is_blank_iff)

lemma first_candidate_Some: "first_candidate record keys = Some v \<Longrightarrow> v \<noteq> JNull \<and> v \<noteq> JStr []"
  unfolding first_candidate_def by (auto simp: find_Some_iff)

lemma record_key_Some:
  "first_candidate record key_fields = Some v \<Longrightarrow> record_key record = py_str v"
  using first_candidate_Some[of "record" key_fields v]
  by (simp add: record_key_def pick_first_find)


lemma str_nat_nonempty: "str_nat n \<noteq> []"
  by (subst str_nat.simps) simp

lemma str_int_nonempty: "str_int i \<noteq> []"
  by (simp add: str_int_def str_nat_nonempty)



lemma iterencode_nonempty: "iterencode ind lvl v \<noteq> []"
  by (cases v) (simp_all add: str_int_nonempty encode_str_def)


lemma str_nat_digit: "n < 10 \<Longrightarrow> str_nat n = [digit_char n]"
  by (subst str_nat.simps) simp

lemma dict_get_first:
  "dict_get record ''id'' = v \<Longrightarrow> v \<noteq> JNull \<Longrightarrow> v \<noteq> JStr [] \<Longrightarrow> first_candidate record key_fields = Some v"
  by (simp add: first_candidate_def key_fields_def)


lemma distinct_map_fst_sort_key:
  "distinct (map fst (sort_key fst kvs)) = distinct (map fst kvs)"
  by (simp add: distinct_map)



lemma deep_equal_JObj:
  "deep_equal (JObj kvs) b \<longleftrightarrow>
     (\<exists>kws. b = JObj kws \<and> length kvs = length kws \<and>
        (\<forall>(k, v) \<in> set kvs. \<exists>w. map_of kws k = Some w \<and> deep_equal v w))"
  by (cases b) (auto simp: list_all_iff split: option.splits)

lemma deep_equal_JList:
  "deep_equal (JList xs) b \<longleftrightarrow> (\<exists>ys. b = JList ys \<and> list_all2 deep_equal xs ys)"
  by (cases b) auto








text \<open>
  Claim C10. The key is \<^verbatim>\<open>str\<close> of the first candidate value that is neither null nor the
  empty string. The values \<^verbatim>\<open>0\<close> and \<^verbatim>\<open>false\<close> are such values: a record whose \<open>id\<close>
  is \<^verbatim>\<open>0\<close> has the key \<^verbatim>\<open>"0"\<close>, one whose \<open>id\<close> is \<^verbatim>\<open>false\<close> the key \<^verbatim>\<open>"False"\<close>.
  A record identified by the number \<^verbatim>\<open>1\<close> and one identified by the string \<^verbatim>\<open>"1"\<close> both
  have the key \<^verbatim>\<open>"1"\<close>, and a snapshot built from the two holds the second one only.
\<close>

theorem record_key_string_coercion:
  "(first_candidate ra key_fields = Some v \<longrightarrow> record_key ra = py_str v)
   \<and> (dict_get rb ''id'' = JInt 0 \<longrightarrow> record_key rb = ''0'')
   \<and> (dict_get rc ''id'' = JBool False \<longrightarrow> record_key rc = ''False'')
   \<and> (first_candidate r1 key_fields = Some (JInt 1) \<longrightarrow>
        first_candidate r2 key_fields = Some (JStr ''1'') \<longrightarrow>
          record_key r1 = ''1'' \<and> record_key r2 = ''1''
          \<and> build_snapshot [r1, r2] = [(''1'', normalize_record r2)])"
proof -
  have s0: "py_str (JInt 0) = ''0''" and s1: "py_str (JInt 1) = ''1''"
    and sf: "py_str (JBool False) = ''False''" and ss: "py_str (JStr ''1'') = ''1''"
    by code_simp+
  have "record_key rb = ''0''" if "dict_get rb ''id'' = JInt 0"
    using record_key_Some [OF dict_get_first [OF that]] s0 by simp
  moreover have "record_key rc = ''False''" if "dict_get rc ''id'' = JBool False"
    using record_key_Some [OF dict_get_first [OF that]] sf by simp
  moreover have "record_key r1 = ''1'' \<and> record_key r2 = ''1''
          \<and> build_snapshot [r1, r2] = [(''1'', normalize_record r2)]"
    if "first_candidate r1 key_fields = Some (JInt 1)"
      and "first_candidate r2 key_fields = Some (JStr ''1'')"
  proof -
    have "record_key r1 = ''1''" "record_key r2 = ''1''"
      using record_key_Some [OF that(1)] record_key_Some [OF that(2)] s1 ss by simp_all
    then show ?thesis
      by (simp add: build_snapshot_def)
  qed
  ultimately show ?thesis
    using record_key_Some [of ra v] by blast
qed

theorem record_key_string_coercion_witness:
  "record_key [(''id'', JNull), (''shortage_id'', JStr []), (''set_id'', JInt 42)] = py_str (JInt 42)
   \<and> record_key [(''id'', JInt 0), (''set_id'', JStr ''x'')] = ''0''
   \<and> record_key [(''status'', JStr ''Current''), (''id'', JBool False)] = ''False''
   \<and> record_key [(''id'', JInt 1), (''status'', JStr ''a'')] = ''1''
   \<and> record_key [(''id'', JStr ''1''), (''status'', JStr ''b'')] = ''1''
   \<and> build_snapshot [[(''id'', JInt 1), (''status'', JStr ''a'')],
                       [(''id'', JStr ''1''), (''status'', JStr ''b'')]]
       = [(''1'', normalize_record [(''id'', JStr ''1''), (''status'', JStr ''b'')])]"
proof -
  let ?ra = "[(''id'', JNull), (''shortage_id'', JStr []), (''set_id'', JInt 42)]"
  let ?rb = "[(''id'', JInt 0), (''set_id'', JStr ''x'')]"
  let ?rc = "[(''status'', JStr ''Current''), (''id'', JBool False)]"
  let ?r1 = "[(''id'', JInt 1), (''status'', JStr ''a'')]"
  let ?r2 = "[(''id'', JStr ''1''), (''status'', JStr ''b'')]"
  have a: "first_candidate ?ra key_fields = Some (JInt 42)"
    by code_simp
  have b: "dict_get ?rb ''id'' = JInt 0" and c: "dict_get ?rc ''id'' = JBool False"
    by code_simp+
  have d: "first_candidate ?r1 key_fields = Some (JInt 1)"
    "first_candidate ?r2 key_fields = Some (JStr ''1'')"
    by code_simp+
  show ?thesis
    using a b c d record_key_string_coercion [of ?ra "JInt 42" ?rb ?rc ?r1 ?r2]
    by blast
qed

section \<open>Properties of the fetch client, the store and the pipeline\<close>

lemma track_shortages_fetch_error:
  "fetch_shortage_records response = Inl e \<Longrightarrow>
     track_shortages response fs snapshot_path save = (Inl e, fs)"
  by (simp add: track_shortages_def)

text \<open>
  Claim C3, as amended. When the body parses as a JSON object whose \<open>results\<close> field is
  present and is not a list, the fetch fails with the tracker's error for a malformed
  response, and the run that made the fetch ends with that error and the file system as it
  was. When the field is missing, the fetch does not fail: it returns no records.
\<close>

theorem fetch_results_not_a_list:
  "(json_loads text = Inr (JObj d) \<longrightarrow> map_of d ''results'' = Some v \<longrightarrow> \<not> is_list v \<longrightarrow>
      fetch_shortage_records (Body text) = Inl (RuntimeError not_a_list_message)
      \<and> track_shortages (Body text) fs snapshot_path save
          = (Inl (RuntimeError not_a_list_message), fs))
   \<and> (json_loads text = Inr (JObj d) \<longrightarrow> map_of d ''results'' = None \<longrightarrow>
        fetch_shortage_records (Body text) = Inr [])"
proof -
  have "fetch_shortage_records (Body text) = Inl (RuntimeError not_a_list_message)"
    if "json_loads text = Inr (JObj d)" "map_of d ''results'' = Some v" "\<not> is_list v"
    using that by (cases v) (simp_all add: fetch_shortage_records_def is_list_def)
  moreover have "fetch_shortage_records (Body text) = Inr []"
    if "json_loads text = Inr (JObj d)" "map_of d ''results'' = None"
    using that by (simp add: fetch_shortage_records_def List.map_filter_simps)
  ultimately show ?thesis
    using track_shortages_fetch_error [of "Body text"] by blast
qed

theorem fetch_results_not_a_list_witness:
  \<open>fetch_shortage_records (Body ''{"results": "not a list"}'')
     = Inl (RuntimeError not_a_list_message)
   \<and> track_shortages (Body ''{"results": "not a list"}'') Map.empty ''snap.json'' True
       = (Inl (RuntimeError not_a_list_message), Map.empty)
   \<and> fetch_shortage_records (Body ''{"meta": 1}'') = Inr []\<close>
proof -
  have a: \<open>json_loads ''{"results": "not a list"}'' = Inr (JObj [(''results'', JStr ''not a list'')])\<close>
    by code_simp
  have b: "map_of [(''results'', JStr ''not a list'')] ''results'' = Some (JStr ''not a list'')"
    "\<not> is_list (JStr ''not a list'')"
    by (simp_all add: is_list_def)
  have c: \<open>json_loads ''{"meta": 1}'' = Inr (JObj [(''meta'', JInt 1)])\<close>
    by code_simp
  have d: "map_of [(''meta'', JInt 1)] ''results'' = None"
    by simp
  show ?thesis
    using a b c d
      fetch_results_not_a_list [of \<open>''{"results": "not a list"}''\<close>
        "[(''results'', JStr ''not a list'')]" "JStr ''not a list''" Map.empty "''snap.json''" True]
      fetch_results_not_a_list [of \<open>''{"meta": 1}''\<close> "[(''meta'', JInt 1)]" JNull]
    by blast
qed

text \<open>
  Claim C3 as stated fails where the \<open>results\<close> field is missing: the body \<^verbatim>\<open>{}\<close> parses
  as an object without that field, and the fetch returns the empty list of records.
\<close>

theorem fetch_results_missing_counterexample:
  "json_loads ''{}'' = Inr (JObj []) \<and> map_of ([] :: pydict) ''results'' = None
   \<and> fetch_shortage_records (Body ''{}'') = Inr []"
  by code_simp


text \<open>
  Claim C8. Where there is no file, \<open>load_snapshot\<close> returns the empty snapshot and no
  error. Where there is one, it fails when the text does not parse (the decoder's error is
  passed on) and when it parses as anything but an object (the tracker's own error); a text
  that parses as an object is returned as the snapshot.
\<close>

theorem load_snapshot_cases:
  "(fs path = None \<longrightarrow> load_snapshot fs path = Inr [])
   \<and> (fs path = Some text \<longrightarrow> json_loads text = Inl e \<longrightarrow> load_snapshot fs path = Inl e)
   \<and> (fs path = Some text \<longrightarrow> json_loads text = Inr v \<longrightarrow> \<not> is_dict v \<longrightarrow>
        load_snapshot fs path
          = Inl (RuntimeError (''Snapshot file is invalid JSON object: '' @ path)))
   \<and> (fs path = Some text \<longrightarrow> json_loads text = Inr (JObj d) \<longrightarrow>
        load_snapshot fs path = Inr d)"
proof -
  have "load_snapshot fs path
          = Inl (RuntimeError (''Snapshot file is invalid JSON object: '' @ path))"
    if "fs path = Some text" "json_loads text = Inr v" "\<not> is_dict v"
    using that by (cases v) (simp_all add: load_snapshot_def is_dict_def)
  then show ?thesis
    by (simp add: load_snapshot_def)
qed

theorem load_snapshot_cases_witness:
  \<open>load_snapshot Map.empty ''data/shortage_snapshot.json'' = Inr []
   \<and> load_snapshot [''s.json'' \<mapsto> ''{"a": [1'']  ''s.json'' = Inl JSONDecodeError
   \<and> load_snapshot [''s.json'' \<mapsto> ''[1, 2]''] ''s.json''
       = Inl (RuntimeError (''Snapshot file is invalid JSON object: '' @ ''s.json''))
   \<and> load_snapshot [''s.json'' \<mapsto> ''{"7": null}''] ''s.json'' = Inr [(''7'', JNull)]\<close>
proof -
  have a: \<open>json_loads ''{"a": [1'' = Inl JSONDecodeError\<close>
    by code_simp
  have b: "json_loads ''[1, 2]'' = Inr (JList [JInt 1, JInt 2])"
    "\<not> is_dict (JList [JInt 1, JInt 2])"
    by code_simp+
  have c: \<open>json_loads ''{"7": null}'' = Inr (JObj [(''7'', JNull)])\<close>
    by code_simp
  have 1: "load_snapshot Map.empty ''data/shortage_snapshot.json'' = Inr []"
    using load_snapshot_cases [of Map.empty "''data/shortage_snapshot.json''"] by simp
  have 2: \<open>load_snapshot [''s.json'' \<mapsto> ''{"a": [1'']  ''s.json'' = Inl JSONDecodeError\<close>
    using a load_snapshot_cases
      [of \<open>[''s.json'' \<mapsto> ''{"a": [1'']\<close> "''s.json''" \<open>''{"a": [1''\<close> JSONDecodeError]
    by simp
  have 3: "load_snapshot [''s.json'' \<mapsto> ''[1, 2]''] ''s.json''
       = Inl (RuntimeError (''Snapshot file is invalid JSON object: '' @ ''s.json''))"
    using b load_snapshot_cases
      [of "[''s.json'' \<mapsto> ''[1, 2]'']" "''s.json''" "''[1, 2]''" _ "JList [JInt 1, JInt 2]"]
    by simp
  have 4: \<open>load_snapshot [''s.json'' \<mapsto> ''{"7": null}''] ''s.json'' = Inr [(''7'', JNull)]\<close>
    using c load_snapshot_cases
      [of \<open>[''s.json'' \<mapsto> ''{"7": null}'']\<close> "''s.json''" \<open>''{"7": null}''\<close> _ _ "[(''7'', JNull)]"]
    by simp
  from 1 2 3 4 show ?thesis by blast
qed

text \<open>
  Claim C9. A run of \<open>track_shortages\<close> that ends with an error leaves the file system
  as it was, and so does every run with saving switched off. The file system is changed
  only by a run in which the fetch, the load and the diff have all returned, and then it is
  the old file system with the new snapshot written at the snapshot path.
\<close>

theorem track_shortages_store:
  "(fst (track_shortages response fs snapshot_path save) = Inl e \<longrightarrow>
      snd (track_shortages response fs snapshot_path save) = fs)
   \<and> (\<not> save \<longrightarrow> snd (track_shortages response fs snapshot_path save) = fs)
   \<and> (fetch_shortage_records response = Inl e \<longrightarrow>
        track_shortages response fs snapshot_path save = (Inl e, fs))
   \<and> (fetch_shortage_records response = Inr records \<longrightarrow>
        load_snapshot fs snapshot_path = Inl e \<longrightarrow>
        track_shortages response fs snapshot_path save = (Inl e, fs))
   \<and> (fetch_shortage_records response = Inr records \<longrightarrow>
        load_snapshot fs snapshot_path = Inr old_snapshot \<longrightarrow>
        track_shortages response fs snapshot_path save
          = (Inr (length records, diff_snapshots old_snapshot (build_snapshot records)),
             if save then save_snapshot fs snapshot_path (build_snapshot records) else fs))"
  by (auto simp: track_shortages_def Let_def split: sum.splits)


theorem track_shortages_store_witness:
  \<open>track_shortages (URLError ''timed out'') [''s.json'' \<mapsto> ''{}''] ''s.json'' True
     = (Inl (RuntimeError (''openFDA network error: '' @ ''timed out'')), [''s.json'' \<mapsto> ''{}''])
   \<and> track_shortages (Body ''{"results": [{"id": "1"}]}'') [''s.json'' \<mapsto> ''[]''] ''s.json'' True
       = (Inl (RuntimeError (''Snapshot file is invalid JSON object: '' @ ''s.json'')),
          [''s.json'' \<mapsto> ''[]''])
   \<and> track_shortages (Body ''{"results": [{"id": "1"}]}'') Map.empty ''s.json'' True
       = (Inr (length [[(''id'', JStr ''1'')]],
               diff_snapshots [] (build_snapshot [[(''id'', JStr ''1'')]])),
          save_snapshot Map.empty ''s.json'' (build_snapshot [[(''id'', JStr ''1'')]]))
   \<and> snd (track_shortages (Body ''{"results": [{"id": "1"}]}'') Map.empty ''s.json'' False)
       = Map.empty\<close>
proof -
  let ?body = \<open>Body ''{"results": [{"id": "1"}]}''\<close>
  have a: "fetch_shortage_records (URLError ''timed out'')
             = Inl (RuntimeError (''openFDA network error: '' @ ''timed out''))"
    by (simp add: fetch_shortage_records_def)
  have b: "fetch_shortage_records ?body = Inr [[(''id'', JStr ''1'')]]"
    by code_simp
  have "json_loads ''[]'' = Inr (JList [])"
    by code_simp
  then have c: "load_snapshot [''s.json'' \<mapsto> ''[]''] ''s.json''
                  = Inl (RuntimeError (''Snapshot file is invalid JSON object: '' @ ''s.json''))"
    by (simp add: load_snapshot_def)
  have d: "load_snapshot Map.empty ''s.json'' = Inr []"
    by (simp add: load_snapshot_def)
  have 1: \<open>track_shortages (URLError ''timed out'') [''s.json'' \<mapsto> ''{}''] ''s.json'' True
     = (Inl (RuntimeError (''openFDA network error: '' @ ''timed out'')), [''s.json'' \<mapsto> ''{}''])\<close>
    using a track_shortages_store
      [of "URLError ''timed out''" \<open>[''s.json'' \<mapsto> ''{}'']\<close> "''s.json''" True
        "RuntimeError (''openFDA network error: '' @ ''timed out'')"]
    by blast
  have 2: "track_shortages ?body [''s.json'' \<mapsto> ''[]''] ''s.json'' True
       = (Inl (RuntimeError (''Snapshot file is invalid JSON object: '' @ ''s.json'')),
          [''s.json'' \<mapsto> ''[]''])"
    using b c track_shortages_store
      [of ?body "[''s.json'' \<mapsto> ''[]'']" "''s.json''" True
        "RuntimeError (''Snapshot file is invalid JSON object: '' @ ''s.json'')"
        "[[(''id'', JStr ''1'')]]"]
    by blast
  have 3: "track_shortages ?body Map.empty ''s.json'' True
       = (Inr (length [[(''id'', JStr ''1'')]],
               diff_snapshots [] (build_snapshot [[(''id'', JStr ''1'')]])),
          save_snapshot Map.empty ''s.json'' (build_snapshot [[(''id'', JStr ''1'')]]))"
    using b d track_shortages_store
      [of ?body Map.empty "''s.json''" True _ "[[(''id'', JStr ''1'')]]" "[]"]
    by simp
  have 4: "snd (track_shortages ?body Map.empty ''s.json'' False) = Map.empty"
    using track_shortages_store [of ?body Map.empty "''s.json''" False]
    by blast
  from 1 2 3 4 show ?thesis by blast
qed

section \<open>Reading back what the encoder wrote\<close>

lemma skip_ws_nonws: "\<not> is_ws c \<Longrightarrow> skip_ws (c # s) = c # s"
  by (simp add: skip_ws_def)

lemma skip_ws_space: "skip_ws (CHR '' '' # s) = skip_ws s"
  by (simp add: skip_ws_def is_ws_def)

lemma dropWhile_spaces: "dropWhile is_ws (replicate k CHR '' '' @ s) = dropWhile is_ws s"
  by (induction k) (simp_all add: is_ws_def)

lemma skip_ws_newline_indent: "skip_ws (newline_indent ind lvl @ s) = skip_ws s"
  by (cases ind) (simp_all add: newline_indent_def skip_ws_def dropWhile_spaces, simp add: is_ws_def)

lemma length_skip_ws: "length (skip_ws s) \<le> length s"
  by (simp add: skip_ws_def length_dropWhile_le)

lemma of_char_less_256: "(of_char c :: nat) < 256"
  by (cases c) (simp add: of_char_def)

lemma hex_val_hex_digit: "d < 16 \<Longrightarrow> hex_val (hex_digit d) = Some d"
  by (simp add: hex_val_def hex_digit_def less_eq_char_def)

lemma decode_hex2:
  "decode_uXXXX CHR ''0'' CHR ''0'' (hex_digit (of_char c div 16)) (hex_digit (of_char c mod 16))
     = Some (of_char c)"
proof -
  have "(of_char c :: nat) < 16 * 16" using of_char_less_256 [of c] by simp
  then have lt: "(of_char c :: nat) div 16 < 16" by (rule less_mult_imp_div_less)
  have "hex_val (hex_digit (of_char c div 16)) = Some (of_char c div 16)"
    using lt by (rule hex_val_hex_digit)
  moreover have "hex_val (hex_digit (of_char c mod 16)) = Some (of_char c mod 16)"
    by (rule hex_val_hex_digit) simp
  moreover have "hex_val CHR ''0'' = Some 0"
    by (simp add: hex_val_def less_eq_char_def)
  ultimately show ?thesis
    by (simp add: decode_uXXXX_def)
qed

lemma scanstring_escape_char:
  "scanstring (escape_char c @ s) = append_char c (scanstring s)"
  using of_char_less_256 [of c]
  by (simp add: escape_char_def backslash_def hex2_def decode_hex2)

lemma scanstring_encoded:
  "scanstring (concat (map escape_char s) @ CHR 0x22 # rest) = Inr (s, rest)"
  by (induction s) (simp_all add: scanstring_escape_char append_char_def)


lemma of_char_digit_char: "d < 10 \<Longrightarrow> (of_char (digit_char d) :: nat) = 48 + d"
  by (simp add: digit_char_def)

lemma digit_char_props:
  assumes "d < 10"
  shows "is_digit (digit_char d) \<and> digit_val (digit_char d) = d
     \<and> (digit_char d = CHR ''0'' \<longleftrightarrow> d = 0) \<and> digit_char d \<noteq> CHR ''-''"
proof -
  note oc = of_char_digit_char [OF assms]
  have "is_digit (digit_char d)"
    using assms by (simp add: is_digit_def less_eq_char_def oc)
  moreover have "digit_val (digit_char d) = d"
    by (simp add: digit_val_def oc)
  moreover have "(digit_char d = CHR ''0'') = ((of_char (digit_char d) :: nat) = of_char CHR ''0'')"
    by (simp only: of_char_eq_iff)
  then have "digit_char d = CHR ''0'' \<longleftrightarrow> d = 0"
    by (simp add: oc)
  moreover have "(digit_char d = CHR ''-'') = ((of_char (digit_char d) :: nat) = of_char CHR ''-'')"
    by (simp only: of_char_eq_iff)
  then have "digit_char d \<noteq> CHR ''-''"
    by (simp add: oc)
  ultimately show ?thesis by blast
qed

lemma str_nat_digits: "c \<in> set (str_nat n) \<Longrightarrow> is_digit c"
proof (induction n rule: str_nat.induct)
  case (1 n)
  show ?case
  proof (cases "n < 10")
    case True
    then show ?thesis using "1.prems" digit_char_props [of n]
      by (simp add: str_nat.simps [of n])
  next
    case False
    then show ?thesis using "1.prems" "1.IH" digit_char_props [of "n mod 10"]
      by (auto simp: str_nat.simps [of n])
  qed
qed

lemma nat_of_digits_snoc: "nat_of_digits (ds @ [c]) = 10 * nat_of_digits ds + digit_val c"
  by (simp add: nat_of_digits_def)

lemma nat_of_digits_str_nat: "nat_of_digits (str_nat n) = n"
proof (induction n rule: str_nat.induct)
  case (1 n)
  show ?case
  proof (cases "n < 10")
    case True
    then show ?thesis using digit_char_props [of n]
      by (simp add: str_nat.simps [of n] nat_of_digits_def)
  next
    case False
    then show ?thesis using "1.IH" digit_char_props [of "n mod 10"]
      by (simp add: str_nat.simps [of n] nat_of_digits_snoc)
  qed
qed

lemma str_nat_head:
  "\<exists>c cs. str_nat n = c # cs \<and> is_digit c \<and> c \<noteq> CHR ''-'' \<and> (c = CHR ''0'' \<longrightarrow> n = 0 \<and> cs = [])"
proof (induction n rule: str_nat.induct)
  case (1 n)
  show ?case
  proof (cases "n < 10")
    case True
    then show ?thesis using digit_char_props [of n]
      by (simp add: str_nat.simps [of n])
  next
    case False
    then have "n div 10 \<noteq> 0" by simp
    with "1.IH" False obtain c cs where
      "str_nat (n div 10) = c # cs" "is_digit c" "c \<noteq> CHR ''-''" "c \<noteq> CHR ''0''"
      by blast
    then show ?thesis using False
      by (simp add: str_nat.simps [of n])
  qed
qed

lemma number_end_takeWhile:
  "number_end rest \<Longrightarrow> takeWhile is_digit rest = [] \<and> dropWhile is_digit rest = rest"
  by (cases rest) (simp_all add: number_end_def)

lemma match_digits_str_nat:
  assumes "number_end rest"
  shows "match_digits (str_nat n @ rest) = Some (str_nat n, rest)"
proof -
  obtain c cs where s: "str_nat n = c # cs" and d: "is_digit c"
    and z: "c = CHR ''0'' \<longrightarrow> n = 0 \<and> cs = []"
    using str_nat_head [of n] by blast
  have all: "\<And>x. x \<in> set cs \<Longrightarrow> is_digit x"
    using str_nat_digits [of _ n] s by simp
  have "takeWhile is_digit (cs @ rest) = cs" "dropWhile is_digit (cs @ rest) = rest"
    using all number_end_takeWhile [OF assms] by (simp_all add: takeWhile_append2 dropWhile_append2)
  then show ?thesis
    using s d z by (auto simp: match_digits_def)
qed

lemma number_end_no_float: "number_end rest \<Longrightarrow> \<not> match_frac rest \<and> \<not> match_exp rest"
  by (auto simp: number_end_def match_frac_def match_exp_def split: list.splits)

lemma match_number_str_int:
  assumes "number_end rest"
  shows "match_number (str_int i @ rest) = IntLit i rest"
proof (cases "i < 0")
  case True
  then show ?thesis
    using match_digits_str_nat [OF assms, of "nat (- i)"] number_end_no_float [OF assms]
    by (simp add: match_number_def str_int_def nat_of_digits_str_nat)
next
  case False
  obtain c cs where s: "str_nat (nat i) = c # cs" and m: "c \<noteq> CHR ''-''"
    using str_nat_head [of "nat i"] by blast
  have "match_digits (c # cs @ rest) = Some (c # cs, rest)"
    using match_digits_str_nat [OF assms, of "nat i"] s by simp
  then show ?thesis
    using False s m number_end_no_float [OF assms] nat_of_digits_str_nat [of "nat i"]
    by (simp add: match_number_def str_int_def)
qed


lemma is_digit_not_special:
  "is_digit c \<Longrightarrow> c \<noteq> CHR 0x22 \<and> c \<noteq> CHR ''{'' \<and> c \<noteq> CHR ''['' \<and> c \<noteq> CHR '']''
     \<and> c \<noteq> CHR ''n'' \<and> c \<noteq> CHR ''t'' \<and> c \<noteq> CHR ''f'' \<and> \<not> is_ws c"
  by (auto simp: is_digit_def less_eq_char_def is_ws_def)

lemma str_int_head:
  "\<exists>c cs. str_int i = c # cs \<and> (c = CHR ''-'' \<or> is_digit c)"
proof (cases "i < 0")
  case True
  then show ?thesis by (simp add: str_int_def)
next
  case False
  obtain c cs where "str_nat (nat i) = c # cs" "is_digit c"
    using str_nat_head [of "nat i"] by blast
  then show ?thesis using False by (simp add: str_int_def)
qed

lemma iterencode_head:
  "\<exists>c cs. iterencode ind lvl v = c # cs \<and> \<not> is_ws c \<and> c \<noteq> CHR '']''"
proof (cases v)
  case JNull
  then show ?thesis by (simp add: is_ws_def)
next
  case (JBool b)
  then show ?thesis by (cases b) (simp_all add: is_ws_def)
next
  case (JInt i)
  obtain c cs where s: "str_int i = c # cs" and c: "c = CHR ''-'' \<or> is_digit c"
    using str_int_head by blast
  have "\<not> is_ws c \<and> c \<noteq> CHR '']''"
  proof (cases "c = CHR ''-''")
    case True
    then show ?thesis by (simp add: is_ws_def)
  next
    case False
    then show ?thesis using c is_digit_not_special [of c] by blast
  qed
  then show ?thesis
    using JInt s by simp
next
  case (JStr s)
  then show ?thesis by (simp add: is_ws_def encode_str_def)
next
  case (JList xs)
  then show ?thesis by (cases "xs = []") (simp_all add: is_ws_def)
next
  case (JObj kvs)
  then show ?thesis by (cases "kvs = []") (simp_all add: is_ws_def)
qed

lemma skip_ws_iterencode:
  "skip_ws (iterencode ind lvl v @ s) = iterencode ind lvl v @ s"
proof -
  obtain c cs where "iterencode ind lvl v = c # cs" "\<not> is_ws c"
    using iterencode_head [of ind lvl v] by blast
  then show ?thesis by (simp add: skip_ws_nonws)
qed

lemma update_fresh: "k \<notin> fst ` set al \<Longrightarrow> AList.update k v al = al @ [(k, v)]"
  by (induction al) auto

lemma foldl_update_distinct:
  "distinct (map fst (acc @ ps)) \<Longrightarrow>
     foldl (\<lambda>d (k, v). AList.update k v d) acc ps = acc @ ps"
proof (induction ps arbitrary: acc)
  case Nil
  then show ?case by simp
next
  case (Cons p ps)
  obtain k v where p: "p = (k, v)" by (cases p)
  have "k \<notin> fst ` set acc" using Cons.prems p by auto
  then have "AList.update k v acc = acc @ [(k, v)]" by (rule update_fresh)
  moreover have "distinct (map fst ((acc @ [(k, v)]) @ ps))" using Cons.prems p by simp
  ultimately show ?case using Cons.IH [of "acc @ [(k, v)]"] p by simp
qed

lemma dict_of_pairs_distinct: "distinct (map fst ps) \<Longrightarrow> dict_of_pairs ps = ps"
  using foldl_update_distinct [of "[]" ps] by (simp add: dict_of_pairs_def)

lemma scan_once_string:
  "scan_once (Suc n) (CHR 0x22 # cs) =
     Some (case scanstring cs of Inl e \<Rightarrow> Inl e | Inr (str, rest) \<Rightarrow> Inr (JStr str, rest))"
  by simp

lemma scan_once_array:
  "scan_once (Suc n) (CHR ''['' # cs) =
     (case skip_ws cs of
        [] \<Rightarrow> Some (Inl JSONDecodeError)
      | d # rest \<Rightarrow>
          if d = CHR '']'' then Some (Inr (JList [], rest))
          else
            (case parse_array_items n (d # rest) of
               None \<Rightarrow> None
             | Some (Inl e) \<Rightarrow> Some (Inl e)
             | Some (Inr (values, rest')) \<Rightarrow> Some (Inr (JList values, rest'))))"
  by simp

lemma scan_once_object:
  "scan_once (Suc n) (CHR ''{'' # cs) =
     (case skip_ws cs of
        [] \<Rightarrow> Some (Inl JSONDecodeError)
      | d # rest \<Rightarrow>
          if d = CHR ''}'' then Some (Inr (JObj [], rest))
          else if d = CHR 0x22 then
            (case parse_object_items n rest of
               None \<Rightarrow> None
             | Some (Inl e) \<Rightarrow> Some (Inl e)
             | Some (Inr (pairs, rest')) \<Rightarrow> Some (Inr (JObj (dict_of_pairs pairs), rest')))
          else Some (Inl JSONDecodeError))"
  by simp

lemma scan_once_null: "scan_once (Suc n) (''null'' @ rest) = Some (Inr (JNull, rest))"
  by (simp add: starts_with_def)

lemma scan_once_true: "scan_once (Suc n) (''true'' @ rest) = Some (Inr (JBool True, rest))"
  by (simp add: starts_with_def)

lemma scan_once_false: "scan_once (Suc n) (''false'' @ rest) = Some (Inr (JBool False, rest))"
  by (simp add: starts_with_def)

lemma scan_once_int:
  assumes "number_end rest"
  shows "scan_once (Suc n) (str_int i @ rest) = Some (Inr (JInt i, rest))"
proof -
  obtain c cs where s: "str_int i = c # cs" and c: "c = CHR ''-'' \<or> is_digit c"
    using str_int_head by blast
  have m: "match_number (c # cs @ rest) = IntLit i rest"
    using match_number_str_int [OF assms, of i] s by simp
  have "c \<noteq> CHR 0x22 \<and> c \<noteq> CHR ''{'' \<and> c \<noteq> CHR ''['' \<and> c \<noteq> CHR ''n'' \<and> c \<noteq> CHR ''t''
          \<and> c \<noteq> CHR ''f''"
    using c is_digit_not_special [of c] by auto
  then show ?thesis
    using s m by (simp add: starts_with_def)
qed


lemma separator_form:
  "\<exists>w. item_separator ind @ newline_indent ind l = CHR '','' # w
       \<and> (\<forall>s. skip_ws (w @ s) = skip_ws s)"
proof (cases ind)
  case None
  have "\<forall>s. skip_ws ('' '' @ s) = skip_ws s" by (simp add: skip_ws_space)
  then show ?thesis using None by (simp add: item_separator_def newline_indent_def)
next
  case (Some k)
  have "\<forall>s. skip_ws (newline_indent ind l @ s) = skip_ws s"
    by (simp add: skip_ws_newline_indent)
  then show ?thesis using Some by (simp add: item_separator_def)
qed

lemma number_end_comma: "number_end (CHR '','' # s)"
  by (simp add: number_end_def is_digit_def less_eq_char_def)

lemma number_end_closing:
  "c = CHR '']'' \<or> c = CHR ''}'' \<Longrightarrow> number_end (newline_indent ind lvl @ c # rest)"
  by (cases ind) (auto simp: number_end_def newline_indent_def is_digit_def less_eq_char_def)

lemma skip_ws_closing: "\<not> is_ws c \<Longrightarrow> skip_ws (newline_indent ind lvl @ c # rest) = c # rest"
  by (simp add: skip_ws_newline_indent skip_ws_nonws)

lemma join_Cons: "join sep (x # xs) = x @ (if xs = [] then [] else sep @ join sep xs)"
  by (cases xs) simp_all

lemma skip_ws_join_iterencode:
  "skip_ws (join sep (map (iterencode ind lvl) (y # zs)) @ s)
     = join sep (map (iterencode ind lvl) (y # zs)) @ s"
  using skip_ws_iterencode [of ind lvl y] by (simp add: join_Cons)

lemma parse_array_items_encoded:
  assumes "\<forall>x\<in>set xs. reads_back ind x" and "xs \<noteq> []"
    and "length (join (item_separator ind @ newline_indent ind (Suc lvl))
                  (map (iterencode ind (Suc lvl)) xs)
                @ newline_indent ind lvl @ CHR '']'' # rest) < n"
  shows "parse_array_items n
           (join (item_separator ind @ newline_indent ind (Suc lvl))
              (map (iterencode ind (Suc lvl)) xs)
            @ newline_indent ind lvl @ CHR '']'' # rest)
         = Some (Inr (map sorted_json xs, rest))"
  using assms
proof (induction xs arbitrary: n rule: induct_list012)
  case 1
  then show ?case by simp
next
  case (2 x)
  let ?R = "newline_indent ind lvl @ CHR '']'' # rest"
  obtain m where n: "n = Suc m" using "2.prems"(3) by (cases n) simp_all
  have "length (iterencode ind (Suc lvl) x @ ?R) < Suc m"
    using "2.prems"(3) n by simp
  moreover have "number_end ?R" by (simp add: number_end_closing)
  moreover have "reads_back ind x" using "2.prems"(1) by simp
  ultimately have so: "scan_once (Suc m) (iterencode ind (Suc lvl) x @ ?R)
                         = Some (Inr (sorted_json x, ?R))"
    unfolding reads_back_def by blast
  have sk: "skip_ws ?R = CHR '']'' # rest"
    by (simp add: skip_ws_closing is_ws_def)
  show ?case
    using so sk n by (simp del: scan_once.simps)
next
  case (3 x y zs)
  let ?R = "newline_indent ind lvl @ CHR '']'' # rest"
  let ?sep = "item_separator ind @ newline_indent ind (Suc lvl)"
  let ?T = "join ?sep (map (iterencode ind (Suc lvl)) (y # zs)) @ ?R"
  obtain w where w: "?sep = CHR '','' # w" and ws: "\<forall>s. skip_ws (w @ s) = skip_ws s"
    using separator_form by blast
  obtain m where n: "n = Suc m" using "3.prems"(3) by (cases n) simp_all
  have whole: "join ?sep (map (iterencode ind (Suc lvl)) (x # y # zs)) @ ?R
               = iterencode ind (Suc lvl) x @ ?sep @ ?T"
    by simp
  have len: "length (iterencode ind (Suc lvl) x @ ?sep @ ?T) < Suc m"
    using "3.prems"(3) n unfolding whole by simp
  have "number_end (?sep @ ?T)" unfolding w by (simp add: number_end_comma)
  moreover have "reads_back ind x" using "3.prems"(1) by simp
  ultimately have so: "scan_once (Suc m) (iterencode ind (Suc lvl) x @ ?sep @ ?T)
                         = Some (Inr (sorted_json x, ?sep @ ?T))"
    using len unfolding reads_back_def by blast
  have sk: "skip_ws (?sep @ ?T) = CHR '','' # w @ ?T"
    unfolding w by (simp add: skip_ws_nonws is_ws_def)
  have sk2: "skip_ws (w @ ?T) = ?T"
    using ws skip_ws_join_iterencode [of ?sep ind "Suc lvl" y zs ?R] by simp
  have "length ?T < m"
    using len iterencode_nonempty [of ind "Suc lvl" x] unfolding w
    by (cases "iterencode ind (Suc lvl) x") simp_all
  moreover have "\<forall>x\<in>set (y # zs). reads_back ind x" using "3.prems"(1) by simp
  ultimately have ih: "parse_array_items m ?T = Some (Inr (map sorted_json (y # zs), rest))"
    using "3.IH"(2) [of m] by blast
  have "parse_array_items (Suc m) (iterencode ind (Suc lvl) x @ ?sep @ ?T)
          = Some (Inr (map sorted_json (x # y # zs), rest))"
    using so sk sk2 ih by (simp del: scan_once.simps)
  then show ?case
    unfolding whole n .
qed


lemma skip_ws_member:
  "skip_ws (join sep (map (\<lambda>(k, v). encode_str k @ '': '' @ iterencode ind lvl v) (p # ps)) @ s)
     = CHR 0x22 # tl (join sep (map (\<lambda>(k, v). encode_str k @ '': '' @ iterencode ind lvl v) (p # ps)) @ s)"
  by (cases p) (simp add: join_Cons encode_str_def skip_ws_nonws is_ws_def)

lemma parse_object_items_encoded:
  assumes "\<forall>(k, v)\<in>set ps. reads_back ind v" and "ps \<noteq> []"
    and "length (join (item_separator ind @ newline_indent ind (Suc lvl))
                  (map (\<lambda>(k, v). encode_str k @ '': '' @ iterencode ind (Suc lvl) v) ps)
                @ newline_indent ind lvl @ CHR ''}'' # rest) \<le> n"
  shows "parse_object_items n
           (tl (join (item_separator ind @ newline_indent ind (Suc lvl))
                  (map (\<lambda>(k, v). encode_str k @ '': '' @ iterencode ind (Suc lvl) v) ps)
                @ newline_indent ind lvl @ CHR ''}'' # rest))
         = Some (Inr (map (\<lambda>(k, v). (k, sorted_json v)) ps, rest))"
  using assms
proof (induction ps arbitrary: n rule: induct_list012)
  case 1
  then show ?case by simp
next
  case (2 p)
  obtain k v where p: "p = (k, v)" by (cases p)
  let ?R = "newline_indent ind lvl @ CHR ''}'' # rest"
  let ?V = "iterencode ind (Suc lvl) v"
  obtain m where n: "n = Suc m" using "2.prems"(3) p by (cases n) (simp_all add: encode_str_def)
  have "length (?V @ ?R) < Suc m"
    using "2.prems"(3) n p by (simp add: encode_str_def)
  moreover have "number_end ?R" by (simp add: number_end_closing)
  moreover have "reads_back ind v" using "2.prems"(1) p by simp
  ultimately have so: "scan_once (Suc m) (?V @ ?R) = Some (Inr (sorted_json v, ?R))"
    unfolding reads_back_def by blast
  have sk: "skip_ws ?R = CHR ''}'' # rest"
    by (simp add: skip_ws_closing is_ws_def)
  have whole: "tl (join (item_separator ind @ newline_indent ind (Suc lvl))
                  (map (\<lambda>(k, v). encode_str k @ '': '' @ iterencode ind (Suc lvl) v) [p]) @ ?R)
               = concat (map escape_char k) @ CHR 0x22 # CHR '':'' # CHR '' '' # ?V @ ?R"
    using p by (simp add: encode_str_def)
  have c: "skip_ws (CHR '':'' # CHR '' '' # ?V @ ?R) = CHR '':'' # CHR '' '' # ?V @ ?R"
    by (simp add: skip_ws_nonws is_ws_def)
  have v: "skip_ws (CHR '' '' # ?V @ ?R) = ?V @ ?R"
    by (simp add: skip_ws_space skip_ws_iterencode)
  have "parse_object_items (Suc m)
          (concat (map escape_char k) @ CHR 0x22 # CHR '':'' # CHR '' '' # ?V @ ?R)
        = Some (Inr ([(k, sorted_json v)], rest))"
    using so sk c v by (simp del: scan_once.simps add: scanstring_encoded)
  then show ?case
    unfolding whole n using p by simp
next
  case (3 p q ps)
  obtain k v where p: "p = (k, v)" by (cases p)
  let ?R = "newline_indent ind lvl @ CHR ''}'' # rest"
  let ?V = "iterencode ind (Suc lvl) v"
  let ?sep = "item_separator ind @ newline_indent ind (Suc lvl)"
  let ?F = "\<lambda>(k, v). encode_str k @ '': '' @ iterencode ind (Suc lvl) v"
  let ?T = "join ?sep (map ?F (q # ps)) @ ?R"
  obtain w where w: "?sep = CHR '','' # w" and ws: "\<forall>s. skip_ws (w @ s) = skip_ws s"
    using separator_form by blast
  have whole: "join ?sep (map ?F (p # q # ps)) @ ?R
                 = CHR 0x22 # concat (map escape_char k) @ CHR 0x22 # CHR '':'' # CHR '' '' # ?V
                   @ ?sep @ ?T"
    using p by (simp add: encode_str_def)
  obtain m where n: "n = Suc m" using "3.prems"(3) unfolding whole by (cases n) simp_all
  have len: "length (?V @ ?sep @ ?T) < Suc m"
    using "3.prems"(3) n unfolding whole by simp
  have "number_end (?sep @ ?T)" unfolding w by (simp add: number_end_comma)
  moreover have "reads_back ind v" using "3.prems"(1) p by simp
  ultimately have so: "scan_once (Suc m) (?V @ ?sep @ ?T) = Some (Inr (sorted_json v, ?sep @ ?T))"
    using len unfolding reads_back_def by blast
  have sk: "skip_ws (?sep @ ?T) = CHR '','' # w @ ?T"
    unfolding w by (simp add: skip_ws_nonws is_ws_def)
  have sk2: "skip_ws (w @ ?T) = CHR 0x22 # tl ?T"
    using ws skip_ws_member [of ?sep ind "Suc lvl" q ps ?R] by simp
  have c: "skip_ws (CHR '':'' # CHR '' '' # ?V @ ?sep @ ?T) = CHR '':'' # CHR '' '' # ?V @ ?sep @ ?T"
    by (simp add: skip_ws_nonws is_ws_def)
  have v: "skip_ws (CHR '' '' # ?V @ ?sep @ ?T) = ?V @ ?sep @ ?T"
    by (simp add: skip_ws_space skip_ws_iterencode)
  have "length ?T \<le> m"
    using len unfolding w by simp
  moreover have "\<forall>(k, v)\<in>set (q # ps). reads_back ind v" using "3.prems"(1) by simp
  ultimately have ih: "parse_object_items m (tl ?T)
                         = Some (Inr (map (\<lambda>(k, v). (k, sorted_json v)) (q # ps), rest))"
    using "3.IH"(2) [of m] by blast
  have "parse_object_items (Suc m)
          (concat (map escape_char k) @ CHR 0x22 # CHR '':'' # CHR '' '' # ?V @ ?sep @ ?T)
        = Some (Inr ((k, sorted_json v) # map (\<lambda>(k, v). (k, sorted_json v)) (q # ps), rest))"
    using so sk sk2 c v ih by (simp del: scan_once.simps add: scanstring_encoded)
  then show ?case
    unfolding whole n using p by simp
qed


lemma number_end_nil: "number_end []"
  by (simp add: number_end_def)

lemma wf_json_reads_back: "wf_json v \<Longrightarrow> reads_back ind v"
proof (induction v)
  case JNull
  show ?case unfolding reads_back_def
  proof (intro allI impI)
    fix n lvl rest assume "length (iterencode ind lvl JNull @ rest) < n"
    then obtain m where "n = Suc m" by (cases n) simp_all
    then show "scan_once n (iterencode ind lvl JNull @ rest) = Some (Inr (sorted_json JNull, rest))"
      using scan_once_null [of m rest] by simp
  qed
next
  case (JBool b)
  show ?case unfolding reads_back_def
  proof (intro allI impI)
    fix n lvl rest assume "length (iterencode ind lvl (JBool b) @ rest) < n"
    then obtain m where "n = Suc m" by (cases n) simp_all
    then show "scan_once n (iterencode ind lvl (JBool b) @ rest)
                 = Some (Inr (sorted_json (JBool b), rest))"
      using scan_once_true [of m rest] scan_once_false [of m rest] by (cases b) simp_all
  qed
next
  case (JInt i)
  show ?case unfolding reads_back_def
  proof (intro allI impI)
    fix n lvl rest
    assume "length (iterencode ind lvl (JInt i) @ rest) < n" and ne: "number_end rest"
    then obtain m where "n = Suc m" by (cases n) simp_all
    then show "scan_once n (iterencode ind lvl (JInt i) @ rest)
                 = Some (Inr (sorted_json (JInt i), rest))"
      using scan_once_int [OF ne, of m i] by simp
  qed
next
  case (JStr s)
  show ?case unfolding reads_back_def
  proof (intro allI impI)
    fix n lvl rest assume "length (iterencode ind lvl (JStr s) @ rest) < n"
    then obtain m where "n = Suc m" by (cases n) simp_all
    then show "scan_once n (iterencode ind lvl (JStr s) @ rest)
                 = Some (Inr (sorted_json (JStr s), rest))"
      using scan_once_string [of m "concat (map escape_char s) @ CHR 0x22 # rest"]
      by (simp add: encode_str_def scanstring_encoded)
  qed
next
  case (JList xs)
  have rb: "\<forall>x\<in>set xs. reads_back ind x"
    using JList by (simp add: list_all_iff)
  show ?case unfolding reads_back_def
  proof (intro allI impI)
    fix n lvl rest
    assume len: "length (iterencode ind lvl (JList xs) @ rest) < n"
    then obtain m where n: "n = Suc m" by (cases n) simp_all
    show "scan_once n (iterencode ind lvl (JList xs) @ rest)
            = Some (Inr (sorted_json (JList xs), rest))"
    proof (cases "xs = []")
      case True
      then show ?thesis
        using n scan_once_array [of m "CHR '']'' # rest"]
        by (simp add: skip_ws_nonws is_ws_def)
    next
      case False
      then obtain y zs where xs: "xs = y # zs" by (cases xs) simp_all
      let ?sep = "item_separator ind @ newline_indent ind (Suc lvl)"
      let ?T = "join ?sep (map (iterencode ind (Suc lvl)) xs) @ newline_indent ind lvl @ CHR '']'' # rest"
      have whole: "iterencode ind lvl (JList xs) @ rest
                     = CHR ''['' # newline_indent ind (Suc lvl) @ ?T"
        using False by simp
      have "length ?T < m" using len n unfolding whole by simp
      then have items: "parse_array_items m ?T = Some (Inr (map sorted_json xs, rest))"
        using rb False by (intro parse_array_items_encoded)
      obtain c cs where hd: "iterencode ind (Suc lvl) y = c # cs" and c: "c \<noteq> CHR '']''"
        using iterencode_head by blast
      have "skip_ws (newline_indent ind (Suc lvl) @ ?T) = ?T"
        using skip_ws_join_iterencode [of ?sep ind "Suc lvl" y zs] xs
        by (simp add: skip_ws_newline_indent)
      moreover obtain cs' where "?T = c # cs'"
        using hd xs by (simp add: join_Cons)
      ultimately have "scan_once (Suc m) (CHR ''['' # newline_indent ind (Suc lvl) @ ?T)
                         = Some (Inr (JList (map sorted_json xs), rest))"
        using items c by (simp add: scan_once_array del: scan_once.simps)
      then show ?thesis
        unfolding whole n by simp
    qed
  qed
next
  case (JObj kvs)
  let ?ps = "sort_key fst kvs"
  have dist: "distinct (map fst kvs)" using JObj.prems by simp
  have rb: "\<forall>(k, v)\<in>set ?ps. reads_back ind v"
  proof (clarify)
    fix k v assume "(k, v) \<in> set ?ps"
    then have kv: "(k, v) \<in> set kvs" by simp
    then have "wf_json v" using JObj.prems by (auto simp: list_all_iff)
    moreover have "v \<in> Basic_BNFs.snds (k, v)" by simp
    ultimately show "reads_back ind v" using JObj.IH kv by blast
  qed
  show ?case unfolding reads_back_def
  proof (intro allI impI)
    fix n lvl rest
    assume len: "length (iterencode ind lvl (JObj kvs) @ rest) < n"
    then obtain m where n: "n = Suc m" by (cases n) simp_all
    show "scan_once n (iterencode ind lvl (JObj kvs) @ rest)
            = Some (Inr (sorted_json (JObj kvs), rest))"
    proof (cases "kvs = []")
      case True
      then show ?thesis
        using n scan_once_object [of m "CHR ''}'' # rest"]
        by (simp add: skip_ws_nonws is_ws_def)
    next
      case False
      then have ne: "?ps \<noteq> []" by (metis length_sort length_0_conv)
      then obtain q qs where ps: "?ps = q # qs" by (cases ?ps) simp_all
      let ?sep = "item_separator ind @ newline_indent ind (Suc lvl)"
      let ?F = "\<lambda>(k, v). encode_str k @ '': '' @ iterencode ind (Suc lvl) v"
      let ?T = "join ?sep (map ?F ?ps) @ newline_indent ind lvl @ CHR ''}'' # rest"
      have whole: "iterencode ind lvl (JObj kvs) @ rest
                     = CHR ''{'' # newline_indent ind (Suc lvl) @ ?T"
        using False by simp
      have "length ?T \<le> m" using len n unfolding whole by simp
      then have items: "parse_object_items m (tl ?T)
                          = Some (Inr (map (\<lambda>(k, v). (k, sorted_json v)) ?ps, rest))"
        using rb ne by (intro parse_object_items_encoded)
      have "skip_ws (newline_indent ind (Suc lvl) @ ?T) = CHR 0x22 # tl ?T"
        using skip_ws_member [of ?sep ind "Suc lvl" q qs] ps
        by (simp add: skip_ws_newline_indent)
      moreover have mf: "map fst (map (\<lambda>(k, v). (k, sorted_json v)) ?ps) = map fst ?ps"
        by (simp add: case_prod_beta)
      have "distinct (map fst (map (\<lambda>(k, v). (k, sorted_json v)) ?ps))"
        unfolding mf using dist by (simp only: distinct_map_fst_sort_key)
      then have "dict_of_pairs (map (\<lambda>(k, v). (k, sorted_json v)) ?ps)
                   = map (\<lambda>(k, v). (k, sorted_json v)) ?ps"
        by (rule dict_of_pairs_distinct)
      ultimately have "scan_once (Suc m) (CHR ''{'' # newline_indent ind (Suc lvl) @ ?T)
                         = Some (Inr (JObj (map (\<lambda>(k, v). (k, sorted_json v)) ?ps), rest))"
        using items by (simp add: scan_once_object del: scan_once.simps)
      then show ?thesis
        unfolding whole n by simp
    qed
  qed
qed

lemma json_loads_dumps: "wf_json v \<Longrightarrow> json_loads (json_dumps ind v) = Inr (sorted_json v)"
proof -
  assume "wf_json v"
  then have "reads_back ind v" by (rule wf_json_reads_back)
  moreover have "length (iterencode ind 0 v @ []) < Suc (length (iterencode ind 0 v))"
    by simp
  ultimately have "scan_once (Suc (length (iterencode ind 0 v))) (iterencode ind 0 v @ [])
               = Some (Inr (sorted_json v, []))"
    unfolding reads_back_def using number_end_nil by blast
  then show ?thesis
    using skip_ws_iterencode [of ind 0 v "[]"]
    by (simp add: json_loads_def json_dumps_def skip_ws_def del: scan_once.simps)
qed


lemma deep_equal_py_eq: "deep_equal a b \<Longrightarrow> py_eq a b"
proof (induction a arbitrary: b)
  case (JList xs)
  from JList.prems obtain ys where b: "b = JList ys" and rel: "list_all2 deep_equal xs ys"
    unfolding deep_equal_JList by blast
  have "list_all2 py_eq xs ys"
  proof (rule list_all2_all_nthI)
    show "length xs = length ys" using rel by (rule list_all2_lengthD)
  next
    fix i assume i: "i < length xs"
    then have "deep_equal (xs ! i) (ys ! i)" using rel by (simp add: list_all2_nthD)
    then show "py_eq (xs ! i) (ys ! i)" using JList.IH i by (meson nth_mem)
  qed
  then show ?case using b by simp
next
  case (JObj kvs)
  from JObj.prems obtain kws where b: "b = JObj kws" and len: "length kvs = length kws"
    and rel: "\<And>k v. (k, v) \<in> set kvs \<Longrightarrow> \<exists>w. map_of kws k = Some w \<and> deep_equal v w"
    unfolding deep_equal_JObj by blast
  have "list_all (\<lambda>(k, v). case map_of kws k of None \<Rightarrow> False | Some w \<Rightarrow> py_eq v w) kvs"
    unfolding list_all_iff
  proof (clarify)
    fix k v assume kv: "(k, v) \<in> set kvs"
    then obtain w where w: "map_of kws k = Some w" "deep_equal v w" using rel by blast
    moreover have "v \<in> Basic_BNFs.snds (k, v)" by simp
    ultimately have "py_eq v w" using JObj.IH kv by blast
    with w show "case map_of kws k of None \<Rightarrow> False | Some w \<Rightarrow> py_eq v w" by simp
  qed
  then show ?case using b len by simp
qed auto

lemma map_of_sorted_items:
  assumes "distinct (map fst kvs)" and "(k, v) \<in> set kvs"
  shows "map_of (map (\<lambda>(k, v). (k, f v)) (sort_key fst kvs)) k = Some (f v)"
proof -
  let ?ps = "map (\<lambda>(k, v). (k, f v)) (sort_key fst kvs)"
  have "map fst ?ps = map fst (sort_key fst kvs)"
    by (simp add: case_prod_beta)
  then have "distinct (map fst ?ps)"
    using assms(1) by (simp only: distinct_map_fst_sort_key)
  moreover have "(k, f v) \<in> set ?ps"
    using assms(2) by force
  ultimately show ?thesis by simp
qed

lemma deep_equal_sorted_json:
  "wf_json v \<Longrightarrow> deep_equal (sorted_json v) v \<and> deep_equal v (sorted_json v)"
proof (induction v)
  case (JList xs)
  then have "\<forall>x\<in>set xs. deep_equal (sorted_json x) x \<and> deep_equal x (sorted_json x)"
    by (simp add: list_all_iff)
  then have "list_all2 deep_equal (map sorted_json xs) xs"
    and "list_all2 deep_equal xs (map sorted_json xs)"
    by (simp_all add: list_all2_map1 list_all2_map2 list_all2_same)
  then show ?case by simp
next
  case (JObj kvs)
  have dist: "distinct (map fst kvs)" using JObj.prems by simp
  have ih: "\<And>k v. (k, v) \<in> set kvs \<Longrightarrow>
              deep_equal (sorted_json v) v \<and> deep_equal v (sorted_json v)"
  proof -
    fix k v assume kv: "(k, v) \<in> set kvs"
    then have "wf_json v" using JObj.prems by (auto simp: list_all_iff)
    moreover have "v \<in> Basic_BNFs.snds (k, v)" by simp
    ultimately show "deep_equal (sorted_json v) v \<and> deep_equal v (sorted_json v)"
      using JObj.IH kv by blast
  qed
  let ?ps = "map (\<lambda>(k, v). (k, sorted_json v)) (sort_key fst kvs)"
  have 1: "\<forall>(k, v')\<in>set ?ps. \<exists>w. map_of kvs k = Some w \<and> deep_equal v' w"
  proof (clarify)
    fix k v' assume "(k, v') \<in> set ?ps"
    then obtain v where kv: "(k, v) \<in> set kvs" and v': "v' = sorted_json v" by auto
    then have "map_of kvs k = Some v" using dist by simp
    then show "\<exists>w. map_of kvs k = Some w \<and> deep_equal v' w" using ih [OF kv] v' by simp
  qed
  have 2: "\<forall>(k, v)\<in>set kvs. \<exists>w. map_of ?ps k = Some w \<and> deep_equal v w"
  proof (clarify)
    fix k v assume kv: "(k, v) \<in> set kvs"
    have "map_of ?ps k = Some (sorted_json v)"
      using dist kv by (rule map_of_sorted_items)
    then show "\<exists>w. map_of ?ps k = Some w \<and> deep_equal v w" using ih [OF kv] by simp
  qed
  have "deep_equal (JObj ?ps) (JObj kvs)"
    unfolding deep_equal_JObj using 1 by simp
  moreover have "deep_equal (JObj kvs) (JObj ?ps)"
    unfolding deep_equal_JObj using 2 by simp
  ultimately show ?case by simp
qed simp_all

text \<open>
  Claim C7. Saving a snapshot at a location and loading from that location returns the
  snapshot with the fields of every object in ascending order of their names, and this
  snapshot is equal to the saved one: under Python's \<^verbatim>\<open>==\<close> in both directions, and field
  by field. The snapshot is a Python dict of JSON values (distinct keys at every level).
\<close>

theorem save_load_roundtrip:
  assumes "wf_json (JObj S)"
  shows "load_snapshot (save_snapshot fs loc S) loc
           = Inr (map (\<lambda>(k, v). (k, sorted_json v)) (sort_key fst S))
         \<and> py_eq (JObj (map (\<lambda>(k, v). (k, sorted_json v)) (sort_key fst S))) (JObj S)
         \<and> py_eq (JObj S) (JObj (map (\<lambda>(k, v). (k, sorted_json v)) (sort_key fst S)))
         \<and> deep_equal (JObj (map (\<lambda>(k, v). (k, sorted_json v)) (sort_key fst S))) (JObj S)"
proof -
  let ?L = "map (\<lambda>(k, v). (k, sorted_json v)) (sort_key fst S)"
  have "json_loads (json_dumps (Some 2) (JObj S)) = Inr (JObj ?L)"
    using json_loads_dumps [OF assms, of "Some 2"] by simp
  then have "load_snapshot (save_snapshot fs loc S) loc = Inr ?L"
    by (simp add: load_snapshot_def save_snapshot_def)
  moreover have "deep_equal (JObj ?L) (JObj S)" "deep_equal (JObj S) (JObj ?L)"
    using deep_equal_sorted_json [OF assms] by simp_all
  ultimately show ?thesis
    using deep_equal_py_eq by blast
qed

theorem save_load_roundtrip_witness:
  "wf_json (JObj (build_snapshot [[(''id'', JStr ''b''), (''n'', JInt (- 12))], [(''id'', JStr ''a'')]]))
   \<and> load_snapshot
        (save_snapshot Map.empty ''data/snap.json''
           (build_snapshot [[(''id'', JStr ''b''), (''n'', JInt (- 12))], [(''id'', JStr ''a'')]]))
        ''data/snap.json''
      = Inr (map (\<lambda>(k, v). (k, sorted_json v))
               (sort_key fst
                  (build_snapshot [[(''id'', JStr ''b''), (''n'', JInt (- 12))], [(''id'', JStr ''a'')]])))
   \<and> py_eq
        (JObj (map (\<lambda>(k, v). (k, sorted_json v))
                 (sort_key fst
                    (build_snapshot [[(''id'', JStr ''b''), (''n'', JInt (- 12))], [(''id'', JStr ''a'')]]))))
        (JObj (build_snapshot [[(''id'', JStr ''b''), (''n'', JInt (- 12))], [(''id'', JStr ''a'')]]))"
proof -
  have wf: "wf_json (JObj (build_snapshot
              [[(''id'', JStr ''b''), (''n'', JInt (- 12))], [(''id'', JStr ''a'')]]))"
    by code_simp
  show ?thesis
    using wf save_load_roundtrip [OF wf, of Map.empty "''data/snap.json''"] by blast
qed

section \<open>The bound of the decoder suffices\<close>

lemma skip_ws_Cons_length: "skip_ws s = d # rest \<Longrightarrow> length rest < length s"
  using length_skip_ws [of s] by simp

lemma append_char_length:
  "append_char c r = Inr (str, rest) \<Longrightarrow> \<exists>str'. r = Inr (str', rest)"
  by (auto simp: append_char_def split: sum.splits)

lemma scanstring_length: "scanstring s = Inr (str, rest) \<Longrightarrow> length rest < length s"
proof (induction s arbitrary: str rule: scanstring.induct)
  case 1
  then show ?case by simp
next
  case (2 c cs)
  show ?case
  proof (cases "c = CHR 0x22")
    case True
    then show ?thesis using "2.prems" by simp
  next
    case nq: False
    show ?thesis
    proof (cases "c = CHR 0x5C")
      case False
      then obtain str' where "scanstring cs = Inr (str', rest)"
        using "2.prems" nq by (auto split: if_splits dest: append_char_length)
      then have "length rest < length cs"
        using "2.IH"(3) nq False "2.prems" by (auto split: if_splits)
      then show ?thesis by simp
    next
      case bs: True
      then obtain e cs1 where cs: "cs = e # cs1"
        using "2.prems" nq by (cases cs) simp_all
      show ?thesis
      proof (cases "e = CHR ''u''")
        case True
        then obtain h1 h2 h3 h4 cs2 uni str' where
          cs1: "cs1 = h1 # h2 # h3 # h4 # cs2" and u: "decode_uXXXX h1 h2 h3 h4 = Some uni"
          and lt: "uni < 256" and r: "scanstring cs2 = Inr (str', rest)"
          using "2.prems" nq bs cs
          by (auto split: list.splits option.splits if_splits dest: append_char_length)
        have "length rest < length cs2"
          using "2.IH"(1) nq bs cs True cs1 u lt r by blast
        then show ?thesis using cs cs1 by simp
      next
        case False
        then obtain ch str' where b: "backslash e = Some ch" and r: "scanstring cs1 = Inr (str', rest)"
          using "2.prems" nq bs cs
          by (auto split: option.splits dest: append_char_length)
        have "length rest < length cs1"
          using "2.IH"(2) nq bs cs False b r by blast
        then show ?thesis using cs by simp
      qed
    qed
  qed
qed

lemma match_digits_length: "match_digits s = Some (ds, rest) \<Longrightarrow> length rest < length s"
  by (auto simp: match_digits_def length_dropWhile_le less_Suc_eq_le split: list.splits if_splits)

lemma match_number_length: "match_number s = IntLit i rest \<Longrightarrow> length rest < length s"
  by (auto simp: match_number_def Let_def split: list.splits if_splits option.splits
      dest!: match_digits_length)



lemma progress_scan_once_other:
  assumes "c \<noteq> CHR 0x22" "c \<noteq> CHR ''{''" "c \<noteq> CHR ''[''"
  shows "progress (scan_once (Suc n) (c # cs)) (c # cs)"
proof -
  let ?s = "c # cs"
  have eq: "scan_once (Suc n) ?s =
      (if starts_with ''null'' ?s then Some (Inr (JNull, drop 4 ?s))
       else if starts_with ''true'' ?s then Some (Inr (JBool True, drop 4 ?s))
       else if starts_with ''false'' ?s then Some (Inr (JBool False, drop 5 ?s))
       else
         (case match_number ?s of
            IntLit i rest \<Rightarrow> Some (Inr (JInt i, rest))
          | FloatLit \<Rightarrow> Some (Inl OutsideModel)
          | NoMatch \<Rightarrow>
              if starts_with ''NaN'' ?s \<or> starts_with ''Infinity'' ?s \<or> starts_with ''-Infinity'' ?s
              then Some (Inl OutsideModel)
              else Some (Inl JSONDecodeError)))"
    using assms by simp
  have d4: "length (drop 4 ?s) < length ?s" and d5: "length (drop 5 ?s) < length ?s"
    by simp_all
  show ?thesis
  proof (cases "match_number ?s")
    case NoMatch
    then show ?thesis unfolding eq using d4 d5 by (simp add: progress_def)
  next
    case (IntLit i rest)
    then have "length rest < length ?s" by (rule match_number_length)
    then show ?thesis unfolding eq using d4 d5 IntLit by (simp add: progress_def)
  next
    case FloatLit
    then show ?thesis unfolding eq using d4 d5 by (simp add: progress_def)
  qed
qed


lemma progress_scan_once_step:
  assumes arr: "\<And>s. length s < n \<Longrightarrow> progress (parse_array_items n s) s"
    and obj: "\<And>s. length s < n \<Longrightarrow> progress (parse_object_items n s) s"
    and len: "length s < Suc n"
  shows "progress (scan_once (Suc n) s) s"
proof (cases s)
  case Nil
  then show ?thesis by (simp add: progress_def)
next
  case (Cons c cs)
  consider (str) "c = CHR 0x22" | (obj) "c = CHR ''{''" | (arr) "c = CHR ''[''"
    | (other) "c \<noteq> CHR 0x22" "c \<noteq> CHR ''{''" "c \<noteq> CHR ''[''"
    by blast
  then show ?thesis
  proof cases
    case str
    show ?thesis
    proof (cases "scanstring cs")
      case (Inl e)
      then show ?thesis using Cons str by (simp add: progress_def scan_once_string)
    next
      case (Inr p)
      obtain str' rest where p: "p = (str', rest)" by (cases p)
      have "length rest < length cs" using Inr p by (simp add: scanstring_length)
      then show ?thesis using Cons str Inr p by (simp add: progress_def scan_once_string)
    qed
  next
    case obj
    show ?thesis
    proof (cases "skip_ws cs")
      case Nil
      then show ?thesis using Cons obj by (simp add: progress_def scan_once_object)
    next
      case sk: (Cons d rest)
      have lr: "length rest < length cs" using sk by (rule skip_ws_Cons_length)
      then have "length rest < n" using len Cons by simp
      then have pr: "progress (parse_object_items n rest) rest" by (rule assms(2))
      have eq: "scan_once (Suc n) s =
          (if d = CHR ''}'' then Some (Inr (JObj [], rest))
           else if d = CHR 0x22 then
             (case parse_object_items n rest of
                None \<Rightarrow> None
              | Some (Inl e) \<Rightarrow> Some (Inl e)
              | Some (Inr (pairs, rest')) \<Rightarrow> Some (Inr (JObj (dict_of_pairs pairs), rest')))
           else Some (Inl JSONDecodeError))"
        using Cons obj sk by (simp add: scan_once_object del: scan_once.simps)
      show ?thesis
      proof (cases "parse_object_items n rest")
        case None
        then show ?thesis using pr by (simp add: progress_def)
      next
        case (Some r)
        show ?thesis
        proof (cases r)
          case (Inl e)
          then show ?thesis unfolding eq using Some lr Cons by (simp add: progress_def)
        next
          case (Inr q)
          obtain pairs rest' where q: "q = (pairs, rest')" by (cases q)
          have "length rest' < length rest" using pr Some Inr q by (simp add: progress_def)
          then show ?thesis unfolding eq using Some Inr q lr Cons by (simp add: progress_def)
        qed
      qed
    qed
  next
    case arr
    show ?thesis
    proof (cases "skip_ws cs")
      case Nil
      then show ?thesis using Cons arr by (simp add: progress_def scan_once_array)
    next
      case sk: (Cons d rest)
      have lr: "length (d # rest) \<le> length cs" using length_skip_ws [of cs] sk by simp
      then have "length (d # rest) < n" using len Cons by simp
      then have pr: "progress (parse_array_items n (d # rest)) (d # rest)" by (rule assms(1))
      have eq: "scan_once (Suc n) s =
          (if d = CHR '']'' then Some (Inr (JList [], rest))
           else
             (case parse_array_items n (d # rest) of
                None \<Rightarrow> None
              | Some (Inl e) \<Rightarrow> Some (Inl e)
              | Some (Inr (values, rest')) \<Rightarrow> Some (Inr (JList values, rest'))))"
        using Cons arr sk by (simp add: scan_once_array del: scan_once.simps)
      show ?thesis
      proof (cases "parse_array_items n (d # rest)")
        case None
        then show ?thesis using pr by (simp add: progress_def)
      next
        case (Some r)
        show ?thesis
        proof (cases r)
          case (Inl e)
          then show ?thesis unfolding eq using Some lr Cons by (simp add: progress_def)
        next
          case (Inr q)
          obtain vs rest' where q: "q = (vs, rest')" by (cases q)
          have "length rest' < length (d # rest)" using pr Some Inr q by (simp add: progress_def)
          then show ?thesis unfolding eq using Some Inr q lr Cons by (simp add: progress_def)
        qed
      qed
    qed
  next
    case other
    then show ?thesis
      using Cons progress_scan_once_other [of c n cs] by simp
  qed
qed


lemma progress_array_step:
  assumes so: "\<And>s. length s < Suc n \<Longrightarrow> progress (scan_once (Suc n) s) s"
    and arr: "\<And>s. length s < n \<Longrightarrow> progress (parse_array_items n s) s"
    and len: "length s < Suc n"
  shows "progress (parse_array_items (Suc n) s) s"
proof (cases "scan_once (Suc n) s")
  case None
  then show ?thesis using so [OF len] by (simp add: progress_def)
next
  case (Some r0)
  show ?thesis
  proof (cases r0)
    case (Inl e)
    then show ?thesis using Some by (simp add: progress_def del: scan_once.simps)
  next
    case (Inr p)
    obtain v r where p: "p = (v, r)" by (cases p)
    have sc: "scan_once (Suc n) s = Some (Inr (v, r))" using Some Inr p by simp
    have lr: "length r < length s" using so [OF len] sc by (simp add: progress_def)
    show ?thesis
    proof (cases "skip_ws r")
      case Nil
      then show ?thesis using sc by (simp add: progress_def del: scan_once.simps)
    next
      case sk: (Cons d rest)
      have l1: "length rest < length r" using sk by (rule skip_ws_Cons_length)
      have l2: "length (skip_ws rest) \<le> length rest" by (rule length_skip_ws)
      have "length (skip_ws rest) < n" using l1 l2 lr len by simp
      then have pr: "progress (parse_array_items n (skip_ws rest)) (skip_ws rest)" by (rule arr)
      have eq: "parse_array_items (Suc n) s =
          (if d = CHR '']'' then Some (Inr ([v], rest))
           else if d = CHR '','' then
             (case parse_array_items n (skip_ws rest) of
                None \<Rightarrow> None
              | Some (Inl e) \<Rightarrow> Some (Inl e)
              | Some (Inr (values, rest')) \<Rightarrow> Some (Inr (v # values, rest')))
           else Some (Inl JSONDecodeError))"
        using sc sk by (simp del: scan_once.simps)
      show ?thesis
      proof (cases "parse_array_items n (skip_ws rest)")
        case None
        then show ?thesis using pr by (simp add: progress_def)
      next
        case inner: (Some r1)
        show ?thesis
        proof (cases r1)
          case (Inl e)
          then show ?thesis unfolding eq using inner l1 lr by (simp add: progress_def)
        next
          case (Inr q)
          obtain vs rest' where q: "q = (vs, rest')" by (cases q)
          have "length rest' < length (skip_ws rest)"
            using pr inner Inr q by (simp add: progress_def)
          then show ?thesis unfolding eq using inner Inr q l1 l2 lr by (simp add: progress_def)
        qed
      qed
    qed
  qed
qed

lemma progress_object_step:
  assumes so: "\<And>s. length s < Suc n \<Longrightarrow> progress (scan_once (Suc n) s) s"
    and obj: "\<And>s. length s < n \<Longrightarrow> progress (parse_object_items n s) s"
    and len: "length s < Suc n"
  shows "progress (parse_object_items (Suc n) s) s"
proof (cases "scanstring s")
  case (Inl e)
  then show ?thesis by (simp add: progress_def del: scan_once.simps)
next
  case (Inr p)
  obtain key r where p: "p = (key, r)" by (cases p)
  have ss: "scanstring s = Inr (key, r)" using Inr p by simp
  have l0: "length r < length s" using ss by (rule scanstring_length)
  show ?thesis
  proof (cases "skip_ws r")
    case Nil
    then show ?thesis using ss by (simp add: progress_def del: scan_once.simps)
  next
    case sk: (Cons c r1)
    have l1: "length r1 < length r" using sk by (rule skip_ws_Cons_length)
    show ?thesis
    proof (cases "c = CHR '':''")
      case False
      then show ?thesis using ss sk by (simp add: progress_def del: scan_once.simps)
    next
      case colon: True
      have l2: "length (skip_ws r1) \<le> length r1" by (rule length_skip_ws)
      have "length (skip_ws r1) < Suc n" using l0 l1 l2 len by simp
      then have pv: "progress (scan_once (Suc n) (skip_ws r1)) (skip_ws r1)" by (rule so)
      show ?thesis
      proof (cases "scan_once (Suc n) (skip_ws r1)")
        case None
        then show ?thesis using pv by (simp add: progress_def)
      next
        case (Some r0)
        show ?thesis
        proof (cases r0)
          case (Inl e)
          then show ?thesis
            using ss sk colon Some by (simp add: progress_def del: scan_once.simps)
        next
          case inr: (Inr pv0)
          obtain v r2 where pv0: "pv0 = (v, r2)" by (cases pv0)
          have sc: "scan_once (Suc n) (skip_ws r1) = Some (Inr (v, r2))"
            using Some inr pv0 by simp
          have l3: "length r2 < length (skip_ws r1)" using pv sc by (simp add: progress_def)
          show ?thesis
          proof (cases "skip_ws r2")
            case Nil
            then show ?thesis
              using ss sk colon sc by (simp add: progress_def del: scan_once.simps)
          next
            case sk2: (Cons d r3)
            have l4: "length r3 < length r2" using sk2 by (rule skip_ws_Cons_length)
            show ?thesis
            proof (cases "skip_ws r3")
              case Nil
              then show ?thesis
                using ss sk colon sc sk2 l0 l1 l2 l3 l4
                by (simp add: progress_def del: scan_once.simps)
            next
              case sk3: (Cons q r4)
              have l5: "length r4 < length r3" using sk3 by (rule skip_ws_Cons_length)
              have "length r4 < n" using l0 l1 l2 l3 l4 l5 len by simp
              then have po: "progress (parse_object_items n r4) r4" by (rule obj)
              have eq: "parse_object_items (Suc n) s =
                  (if d = CHR ''}'' then Some (Inr ([(key, v)], r3))
                   else if d = CHR '','' then
                     (if q \<noteq> CHR 0x22 then Some (Inl JSONDecodeError)
                      else
                        (case parse_object_items n r4 of
                           None \<Rightarrow> None
                         | Some (Inl e) \<Rightarrow> Some (Inl e)
                         | Some (Inr (pairs, rest')) \<Rightarrow> Some (Inr ((key, v) # pairs, rest'))))
                   else Some (Inl JSONDecodeError))"
                using ss sk colon sc sk2 sk3 by (simp del: scan_once.simps)
              show ?thesis
              proof (cases "parse_object_items n r4")
                case None
                then show ?thesis using po by (simp add: progress_def)
              next
                case inner: (Some r5)
                show ?thesis
                proof (cases r5)
                  case (Inl e)
                  then show ?thesis
                    unfolding eq using inner l0 l1 l2 l3 l4 by (simp add: progress_def)
                next
                  case (Inr q5)
                  obtain pairs rest' where q5: "q5 = (pairs, rest')" by (cases q5)
                  have "length rest' < length r4"
                    using po inner Inr q5 by (simp add: progress_def)
                  then show ?thesis
                    unfolding eq using inner Inr q5 l0 l1 l2 l3 l4 l5 by (simp add: progress_def)
                qed
              qed
            qed
          qed
        qed
      qed
    qed
  qed
qed

lemma progress_all:
  "(\<forall>s. length s < n \<longrightarrow> progress (scan_once n s) s)
   \<and> (\<forall>s. length s < n \<longrightarrow> progress (parse_array_items n s) s)
   \<and> (\<forall>s. length s < n \<longrightarrow> progress (parse_object_items n s) s)"
proof (induction n)
  case 0
  then show ?case by simp
next
  case (Suc n)
  have so: "\<And>s. length s < Suc n \<Longrightarrow> progress (scan_once (Suc n) s) s"
    using Suc.IH by (intro progress_scan_once_step) blast+
  have "\<And>s. length s < Suc n \<Longrightarrow> progress (parse_array_items (Suc n) s) s"
    using Suc.IH so by (intro progress_array_step) blast+
  moreover have "\<And>s. length s < Suc n \<Longrightarrow> progress (parse_object_items (Suc n) s) s"
    using Suc.IH so by (intro progress_object_step) blast+
  ultimately show ?case using so by blast
qed

lemma scan_once_total: "scan_once (Suc (length s)) (skip_ws s) \<noteq> None"
proof -
  have "length (skip_ws s) < Suc (length s)"
    using length_skip_ws [of s] by simp
  then have "progress (scan_once (Suc (length s)) (skip_ws s)) (skip_ws s)"
    using progress_all [of "Suc (length s)"] by blast
  then show ?thesis
    by (cases "scan_once (Suc (length s)) (skip_ws s)")
       (simp_all add: progress_def del: scan_once.simps)
qed

end
